theory Spec2Isabelle
  imports Main "HOL-Library.AList" "HOL-Library.Stream"
begin

section \<open>Python values used by perfect\_guess.py\<close>

datatype error =
    ValueError | TypeError | OverflowError | AttributeError
  | OSError | JSONDecodeError | EOFError | KeyboardInterrupt

text \<open>\<open>except Exception\<close> catches every error but \<open>KeyboardInterrupt\<close>, which derives
  from \<open>BaseException\<close> only.\<close>

definition is_exception :: "error \<Rightarrow> bool" where
  "is_exception e = (e \<noteq> KeyboardInterrupt)"

text \<open>
  A Python \<open>str\<close> is the list of its code points. The game converts lines with
  \<open>int\<close>, \<open>str.strip\<close> and \<open>str.lower\<close>. \<open>ascii\<close> writes a string literal of the
  source.
\<close>

type_synonym pystr = "nat list"

definition ascii :: "string \<Rightarrow> pystr" where
  "ascii s = map of_char s"

text \<open>
  Beyond ASCII these three consult the Unicode database of the interpreter, which is
  no part of the repository: it is a parameter. \<open>uni_space\<close> is
  \<open>Py_UNICODE_ISSPACE\<close> and \<open>uni_decimal\<close> is \<open>Py_UNICODE_TODECIMAL\<close> on code points
  from 128 on; \<open>uni_lower\<close> is \<open>str.lower\<close> on a string that is not pure ASCII.
\<close>

record unicode =
  uni_space :: "nat \<Rightarrow> bool"
  uni_decimal :: "nat \<Rightarrow> nat option"
  uni_lower :: "pystr \<Rightarrow> pystr"

text \<open>The ASCII white space of \<open>str\<close>: tab to carriage return, the four separators
  28 to 31, and the blank.\<close>

definition is_ascii_space :: "nat \<Rightarrow> bool" where
  "is_ascii_space c = (c \<in> {9, 10, 11, 12, 13, 28, 29, 30, 31, 32})"

definition py_isspace :: "unicode \<Rightarrow> nat \<Rightarrow> bool" where
  "py_isspace U c = (if c < 128 then is_ascii_space c else uni_space U c)"

definition strip :: "unicode \<Rightarrow> pystr \<Rightarrow> pystr" where
  "strip U s = rev (dropWhile (py_isspace U) (rev (dropWhile (py_isspace U) s)))"

definition lower_ascii :: "nat \<Rightarrow> nat" where
  "lower_ascii c = (if 65 \<le> c \<and> c \<le> 90 then c + 32 else c)"

definition lower :: "unicode \<Rightarrow> pystr \<Rightarrow> pystr" where
  "lower U s = (if list_all (\<lambda>c. c < 128) s then map lower_ascii s else uni_lower U s)"

definition is_digit :: "nat \<Rightarrow> bool" where
  "is_digit c = (48 \<le> c \<and> c \<le> 57)"

definition digit_val :: "nat \<Rightarrow> int" where
  "digit_val c = int c - 48"

definition py_decimal :: "unicode \<Rightarrow> nat \<Rightarrow> nat option" where
  "py_decimal U c =
     (if c < 128 then (if is_digit c then Some (c - 48) else None) else uni_decimal U c)"

text \<open>
  \<open>int(raw)\<close> on a \<open>str\<close> first rewrites it: a pure ASCII string stays as it is; in any
  other string a code point from 127 on becomes a blank when it is white space, its
  ASCII digit when it is a decimal digit, and a question mark otherwise.
\<close>

definition to_ascii :: "unicode \<Rightarrow> pystr \<Rightarrow> pystr" where
  "to_ascii U s =
     (if list_all (\<lambda>c. c < 128) s then s
      else map (\<lambda>c. if c < 127 then c
                     else if py_isspace U c then 32
                     else (case py_decimal U c of
                             Some d \<Rightarrow> if d < 10 then 48 + d else 63
                           | None \<Rightarrow> 63)) s)"

text \<open>
  The rewritten string is then read in base 10: the white space of C (tab to carriage
  return and the blank, not the separators 28 to 31) is skipped at both ends, one sign
  is allowed, then digits, where a single underscore (95) may stand between two
  digits. \<open>None\<close> stands for the \<open>ValueError\<close> that \<open>int\<close> raises.
\<close>

definition is_c_space :: "nat \<Rightarrow> bool" where
  "is_c_space c = (c \<in> {9, 10, 11, 12, 13, 32})"

definition int_strip :: "pystr \<Rightarrow> pystr" where
  "int_strip s = rev (dropWhile is_c_space (rev (dropWhile is_c_space s)))"

fun digits_value :: "pystr \<Rightarrow> int \<Rightarrow> int option" where
  "digits_value [] acc = Some acc"
| "digits_value (c # cs) acc =
     (if is_digit c then digits_value cs (acc * 10 + digit_val c)
      else if c = 95 \<and> (case cs of [] \<Rightarrow> False | d # _ \<Rightarrow> is_digit d)
        then digits_value cs acc
      else None)"

definition unsigned_literal :: "pystr \<Rightarrow> int option" where
  "unsigned_literal s =
     (case s of [] \<Rightarrow> None | c # _ \<Rightarrow> if is_digit c then digits_value s 0 else None)"

definition parse_int :: "pystr \<Rightarrow> int option" where
  "parse_int s =
     (case int_strip s of
        [] \<Rightarrow> None
      | c # cs \<Rightarrow>
          if c = 45 then map_option uminus (unsigned_literal cs)
          else if c = 43 then unsigned_literal cs
          else unsigned_literal (c # cs))"

definition py_int :: "unicode \<Rightarrow> pystr \<Rightarrow> int option" where
  "py_int U raw = parse_int (to_ascii U raw)"

text \<open>\<open>str(n)\<close> for an integer, as the f-string of the custom difficulty key needs it.\<close>

fun str_nat :: "nat \<Rightarrow> pystr" where
  "str_nat n = (if n < 10 then [48 + n] else str_nat (n div 10) @ [48 + n mod 10])"

definition str_int :: "int \<Rightarrow> pystr" where
  "str_int i = (if i < 0 then 45 # str_nat (nat (- i)) else str_nat (nat i))"

section \<open>The world the game runs in\<close>

text \<open>
  \<open>input_fn\<close> and \<open>output_fn\<close> are injected callables. The input source is the list of
  what the player will still do: type a line, or press Ctrl-C while the game waits.
  When the list is exhausted \<open>input_fn\<close> raises (\<open>EOFError\<close> for the builtin
  \<open>input\<close>, \<open>StopIteration\<close> for the iterators of the tests; one error stands for both).
  Everything the game emits is appended to a trace: the prompt handed to \<open>input_fn\<close> and
  the message handed to \<open>output_fn\<close>. Messages carry the values their f-strings
  interpolate; the decoration of the texts is left out.
\<close>

datatype inp = Line pystr | CtrlC

datatype prompt =
    AttemptPrompt int      \<comment> \<open>Attempt {attempts}: Enter your guess\<close>
  | PlayAgainPrompt        \<comment> \<open>Play again? (y/n):\<close>
  | ChoicePrompt           \<comment> \<open>Enter your choice (1/2/3/4):\<close>
  | MinimumPrompt          \<comment> \<open>Enter minimum (integer):\<close>
  | MaximumPrompt          \<comment> \<open>Enter maximum (integer):\<close>

datatype message =
    EnterBetween int int   \<comment> \<open>Enter a number between {min\_value} and {max\_value}.\<close>
  | InvalidInput           \<comment> \<open>Invalid input! Please enter numbers only.\<close>
  | YesNoPlease            \<comment> \<open>Please enter y/yes or n/no.\<close>
  | GuessBetween int int   \<comment> \<open>Guess the number between {min\_value} and {max\_value}\<close>
  | Higher                 \<comment> \<open>Higher number please.\<close>
  | Lower                  \<comment> \<open>Lower number please.\<close>
  | Correct int int        \<comment> \<open>Correct! You guessed the number {secret} in {attempts} attempts.\<close>
  | GameOver int int       \<comment> \<open>Game Over! You've used all {max\_attempts} attempts.
                               The correct number was {secret}.\<close>
  | Banner                 \<comment> \<open>..:: THE PERFECT GUESS ::..\<close>
  | ChooseDifficulty       \<comment> \<open>Choose Difficulty:\<close>
  | PresetLine pystr pystr int int "int option"
                           \<comment> \<open>{key}. {name} ({min}-{max}, {attempts\_str})\<close>
  | CustomLine             \<comment> \<open>4. Custom range\<close>
  | MinAboveMax            \<comment> \<open>Minimum must be <= maximum. Returning to difficulty menu.\<close>
  | InvalidChoice          \<comment> \<open>Invalid choice. Try again.\<close>
  | NewBest pystr int      \<comment> \<open>New best score for {name}: {attempts\_used} attempts!\<close>
  | YourAttempts int int   \<comment> \<open>Your attempts: {attempts\_used}. Best for this difficulty:
                               {prev\_best} attempts.\<close>
  | TryAgain               \<comment> \<open>Try again to beat the best score!\<close>
  | Goodbye                \<comment> \<open>Thanks for playing. Goodbye!\<close>
  | BestScoresSaved        \<comment> \<open>Best scores saved:\<close>
  | ScoreLine pystr int    \<comment> \<open>- {title}: {v} attempts\<close>
  | Interrupted            \<comment> \<open>Interrupted. Goodbye.\<close>

datatype event = Asked prompt | Said message

text \<open>
  A JSON document as \<open>json.load\<close> returns it. A float is \<open>m * 2 ^ e\<close> (every finite
  double has this shape), an infinity or a NaN, all of which \<open>json.load\<close> accepts.
  An object is the list of its items in file order.
\<close>

datatype pyfloat = Finite int int | PosInf | NegInf | NaN

datatype json =
    JNull | JBool bool | JInt int | JFloat pyfloat | JString pystr
  | JArray "json list" | JObject "(pystr \<times> json) list"

text \<open>
  What is stored at a path: nothing, a file that cannot be opened (permission denied),
  bytes that \<open>json.load\<close> rejects, or the text of a JSON document.
\<close>

datatype file_state = Missing | Denied | Garbage | Json json

type_synonym path = string

text \<open>A \<open>random.Random\<close> object is the stream of raw variates it will still deliver.\<close>

type_synonym rng = "nat stream"

text \<open>
  \<open>Dict[str, int]\<close>: an insertion-ordered dictionary, as the list of its items.
\<close>

type_synonym scores = "(pystr \<times> int) list"

text \<open>
  The state: the input source, the trace, the file system (with the paths at which
  \<open>open(path, "w")\<close> fails: a read-only file or directory), and the store of
  \<open>random.Random\<close> objects by address. \<open>random.Random()\<close> allocates at
  \<open>next_rng\<close>; the state found there is the seed the operating system supplies.
  The Unicode database of the interpreter is part of the world; nothing changes it.
\<close>

record world =
  unicode_db :: unicode
  pending :: "inp list"
  trace :: "event list"
  files :: "path \<Rightarrow> file_state"
  read_only :: "path \<Rightarrow> bool"
  rngs :: "nat \<Rightarrow> rng"
  next_rng :: nat

definition output_fn :: "message \<Rightarrow> world \<Rightarrow> world" where
  "output_fn m w = w\<lparr>trace := trace w @ [Said m]\<rparr>"

definition input_fn :: "prompt \<Rightarrow> world \<Rightarrow> (error + pystr) \<times> world" where
  "input_fn p w =
     (case pending w of
        [] \<Rightarrow> (Inl EOFError, w\<lparr>trace := trace w @ [Asked p]\<rparr>)
      | CtrlC # rest \<Rightarrow>
          (Inl KeyboardInterrupt, w\<lparr>pending := rest, trace := trace w @ [Asked p]\<rparr>)
      | Line s # rest \<Rightarrow> (Inr s, w\<lparr>pending := rest, trace := trace w @ [Asked p]\<rparr>))"

lemma pending_output_fn [simp]: "pending (output_fn m w) = pending w"
  by (simp add: output_fn_def)

lemma input_fn_shrinks:
  "input_fn p w = (Inr s, w') \<Longrightarrow> length (pending w') < length (pending w)"
  by (auto simp: input_fn_def split: list.splits inp.splits)

lemma input_fn_error:
  "input_fn p w = (Inl e, w') \<Longrightarrow> e = EOFError \<or> e = KeyboardInterrupt"
  by (auto simp: input_fn_def split: list.splits inp.splits)

section \<open>get\_valid\_number\<close>

text \<open>
  The \<open>try\<close> block covers both \<open>input_fn(prompt)\<close> and \<open>int(raw)\<close>; only a
  \<open>ValueError\<close> is handled, by the message and another round of the loop. Any other
  error leaves the function.
\<close>

function get_valid_number :: "prompt \<Rightarrow> int \<Rightarrow> int \<Rightarrow> world \<Rightarrow> (error + int) \<times> world" where
  "get_valid_number p min_value max_value w =
     (case input_fn p w of
        (Inl e, w') \<Rightarrow>
          if e = ValueError then get_valid_number p min_value max_value (output_fn InvalidInput w')
          else (Inl e, w')
      | (Inr raw, w') \<Rightarrow>
          (case py_int (unicode_db w') raw of
             None \<Rightarrow> get_valid_number p min_value max_value (output_fn InvalidInput w')
           | Some v \<Rightarrow>
               if min_value \<le> v \<and> v \<le> max_value then (Inr v, w')
               else get_valid_number p min_value max_value
                      (output_fn (EnterBetween min_value max_value) w')))"
  by pat_completeness auto
termination
  by (relation "measure (\<lambda>(p, lo, hi, w). length (pending w))")
     (auto dest: input_fn_shrinks [OF sym] input_fn_error [OF sym])

declare get_valid_number.simps [simp del]

text \<open>One round of the loop, by what the input source delivers next.\<close>

lemma get_valid_number_eof:
  "pending w = [] \<Longrightarrow>
   get_valid_number p lo hi w = (Inl EOFError, w\<lparr>trace := trace w @ [Asked p]\<rparr>)"
  by (subst get_valid_number.simps) (simp add: input_fn_def)

lemma get_valid_number_ctrlc:
  "pending w = CtrlC # rest \<Longrightarrow>
   get_valid_number p lo hi w =
     (Inl KeyboardInterrupt, w\<lparr>pending := rest, trace := trace w @ [Asked p]\<rparr>)"
  by (subst get_valid_number.simps) (simp add: input_fn_def)

lemma get_valid_number_line:
  "pending w = Line s # rest \<Longrightarrow>
   get_valid_number p lo hi w =
     (case py_int (unicode_db w) s of
        None \<Rightarrow>
          get_valid_number p lo hi
            (w\<lparr>pending := rest, trace := trace w @ [Asked p, Said InvalidInput]\<rparr>)
      | Some v \<Rightarrow>
          if lo \<le> v \<and> v \<le> hi
          then (Inr v, w\<lparr>pending := rest, trace := trace w @ [Asked p]\<rparr>)
          else get_valid_number p lo hi
                 (w\<lparr>pending := rest, trace := trace w @ [Asked p, Said (EnterBetween lo hi)]\<rparr>))"
  by (subst get_valid_number.simps)
     (simp add: input_fn_def output_fn_def split: option.splits)

lemma get_valid_number_shrinks:
  "get_valid_number p lo hi w = (Inr v, w') \<Longrightarrow> length (pending w') < length (pending w)"
proof (induction "pending w" arbitrary: w)
  case Nil
  then show ?case by (simp add: get_valid_number_eof [of w])
next
  case (Cons x xs)
  from Cons.hyps(2) have pw: "pending w = x # xs" by simp
  show ?case
  proof (cases x)
    case CtrlC
    with pw Cons.prems show ?thesis by (simp add: get_valid_number_ctrlc [of w xs])
  next
    case (Line s)
    with pw have step: "pending w = Line s # xs" by simp
    let ?bad = "\<lambda>m. w\<lparr>pending := xs, trace := trace w @ [Asked p, Said m]\<rparr>"
    have rec: "get_valid_number p lo hi (?bad m) = (Inr v, w') \<Longrightarrow>
               length (pending w') < Suc (length xs)" for m
      using Cons.hyps(1) [of "?bad m"] by simp
    show ?thesis
      using Cons.prems pw
      by (auto simp: get_valid_number_line [OF step] split: option.splits if_splits
               dest: rec)
  qed
qed

section \<open>play\_game\<close>

text \<open>
  \<open>rng.randint(a, b)\<close> on the object at address \<open>r\<close>: \<open>ValueError\<close> on an empty
  range, else \<open>a\<close> plus a variate below \<open>b - a + 1\<close>; the object advances.
\<close>

definition randint :: "nat \<Rightarrow> int \<Rightarrow> int \<Rightarrow> world \<Rightarrow> (error + int) \<times> world" where
  "randint r a b w =
     (if b < a then (Inl ValueError, w)
      else (Inr (a + int (shd (rngs w r) mod nat (b - a + 1))),
            w\<lparr>rngs := (rngs w)(r := stl (rngs w r))\<rparr>))"

text \<open>\<open>random.Random()\<close>: a new object, seeded by the operating system.\<close>

definition new_random :: "world \<Rightarrow> nat \<times> world" where
  "new_random w = (next_rng w, w\<lparr>next_rng := Suc (next_rng w)\<rparr>)"

text \<open>\<open>random.Random(seed)\<close>: a new object in the state the seeding algorithm of the
  library derives from the seed; that algorithm is the parameter \<open>seeding\<close>.\<close>

definition new_random_seeded :: "(int \<Rightarrow> rng) \<Rightarrow> int \<Rightarrow> world \<Rightarrow> nat \<times> world" where
  "new_random_seeded seeding seed w =
     (next_rng w, w\<lparr>rngs := (rngs w)(next_rng w := seeding seed), next_rng := Suc (next_rng w)\<rparr>)"

text \<open>Lines 105 and 106 of \<open>play_game\<close>: \<open>rng = rng or random.Random()\<close>, then the draw.\<close>

definition draw_secret :: "int \<Rightarrow> int \<Rightarrow> nat option \<Rightarrow> world \<Rightarrow> (error + int) \<times> world" where
  "draw_secret min_value max_value rng w =
     (case (case rng of Some r \<Rightarrow> (r, w) | None \<Rightarrow> new_random w) of
        (r, w0) \<Rightarrow> randint r min_value max_value w0)"

text \<open>The \<open>while True\<close> loop of \<open>play_game\<close>, lines 111 to 135; \<open>attempts\<close> is the
  counter on entry to the round.\<close>

function play_loop ::
  "int \<Rightarrow> int \<Rightarrow> int \<Rightarrow> int option \<Rightarrow> int \<Rightarrow> world \<Rightarrow> (error + int \<times> bool) \<times> world" where
  "play_loop secret_number min_value max_value max_attempts attempts w =
     (case get_valid_number (AttemptPrompt (attempts + 1)) min_value max_value w of
        (Inl e, w1) \<Rightarrow> (Inl e, w1)
      | (Inr guess, w1) \<Rightarrow>
          (case (if guess < secret_number then Some (output_fn Higher w1)
                 else if guess > secret_number then Some (output_fn Lower w1)
                 else None) of
             None \<Rightarrow>
               (Inr (attempts + 1, True), output_fn (Correct secret_number (attempts + 1)) w1)
           | Some w2 \<Rightarrow>
               (case max_attempts of
                  None \<Rightarrow>
                    play_loop secret_number min_value max_value max_attempts (attempts + 1) w2
                | Some m \<Rightarrow>
                    if attempts + 1 \<ge> m
                    then (Inr (attempts + 1, False), output_fn (GameOver m secret_number) w2)
                    else play_loop secret_number min_value max_value max_attempts
                           (attempts + 1) w2)))"
  by pat_completeness auto
termination
  by (relation "measure (\<lambda>(s, lo, hi, m, a, w). length (pending w))")
     (auto dest: get_valid_number_shrinks [OF sym] split: if_splits)

declare play_loop.simps [simp del]

definition play_game ::
  "int \<Rightarrow> int \<Rightarrow> int option \<Rightarrow> nat option \<Rightarrow> world \<Rightarrow> (error + int \<times> bool) \<times> world" where
  "play_game min_value max_value max_attempts rng w =
     (case draw_secret min_value max_value rng w of
        (Inl e, w1) \<Rightarrow> (Inl e, w1)
      | (Inr secret_number, w1) \<Rightarrow>
          play_loop secret_number min_value max_value max_attempts 0
            (output_fn (GuessBetween min_value max_value) w1))"

section \<open>get\_yes\_no\<close>

function get_yes_no :: "prompt \<Rightarrow> world \<Rightarrow> (error + bool) \<times> world" where
  "get_yes_no p w =
     (case input_fn p w of
        (Inl e, w') \<Rightarrow> (Inl e, w')
      | (Inr raw, w') \<Rightarrow>
          (let choice = lower (unicode_db w') (strip (unicode_db w') raw) in
           if choice \<in> {ascii ''y'', ascii ''yes''} then (Inr True, w')
           else if choice \<in> {ascii ''n'', ascii ''no''} then (Inr False, w')
           else get_yes_no p (output_fn YesNoPlease w')))"
  by pat_completeness auto
termination
  by (relation "measure (\<lambda>(p, w). length (pending w))")
     (auto dest: input_fn_shrinks [OF sym])

declare get_yes_no.simps [simp del]

section \<open>The score store\<close>

text \<open>\<open>int(v)\<close> on a float cuts the fraction off, towards zero.\<close>

definition trunc_float :: "int \<Rightarrow> int \<Rightarrow> int" where
  "trunc_float m e =
     (if 0 \<le> e then m * 2 ^ nat e
      else if 0 \<le> m then m div 2 ^ nat (- e)
      else - ((- m) div 2 ^ nat (- e)))"

text \<open>\<open>int(v)\<close> on a value that \<open>json.load\<close> produced.\<close>

fun int_of_json :: "unicode \<Rightarrow> json \<Rightarrow> error + int" where
  "int_of_json U (JInt i) = Inr i"
| "int_of_json U (JBool b) = Inr (if b then 1 else 0)"
| "int_of_json U (JFloat (Finite m e)) = Inr (trunc_float m e)"
| "int_of_json U (JFloat PosInf) = Inl OverflowError"
| "int_of_json U (JFloat NegInf) = Inl OverflowError"
| "int_of_json U (JFloat NaN) = Inl ValueError"
| "int_of_json U (JString s) =
     (case py_int U s of None \<Rightarrow> Inl ValueError | Some i \<Rightarrow> Inr i)"
| "int_of_json U JNull = Inl TypeError"
| "int_of_json U (JArray xs) = Inl TypeError"
| "int_of_json U (JObject kvs) = Inl TypeError"

text \<open>The comprehension \<open>{k: int(v) for k, v in data.items()}\<close>: the items are converted
  in order, each stored under its key; the first failing conversion raises.\<close>

fun convert_items :: "unicode \<Rightarrow> (pystr \<times> json) list \<Rightarrow> scores \<Rightarrow> error + scores" where
  "convert_items U [] acc = Inr acc"
| "convert_items U ((k, v) # kvs) acc =
     (case int_of_json U v of
        Inl e \<Rightarrow> Inl e
      | Inr i \<Rightarrow> convert_items U kvs (AList.update k i acc))"

text \<open>The body of the \<open>try\<close> of \<open>safe_load_scores\<close>, lines 32 to 37. A value that is
  not an object has no \<open>items\<close>.\<close>

definition load_scores_body :: "path \<Rightarrow> world \<Rightarrow> error + scores" where
  "load_scores_body p w =
     (if files w p = Missing then Inr []
      else
        (case files w p of
           Missing \<Rightarrow> Inl OSError
         | Denied \<Rightarrow> Inl OSError
         | Garbage \<Rightarrow> Inl JSONDecodeError
         | Json data \<Rightarrow>
             (case data of
                JObject kvs \<Rightarrow> convert_items (unicode_db w) kvs []
              | _ \<Rightarrow> Inl AttributeError)))"

definition safe_load_scores :: "path \<Rightarrow> world \<Rightarrow> error + scores" where
  "safe_load_scores p w =
     (case load_scores_body p w of
        Inl e \<Rightarrow> if is_exception e then Inr [] else Inl e
      | Inr sc \<Rightarrow> Inr sc)"

text \<open>\<open>json.dump(scores, fh, indent=2)\<close> writes the object of the items, in order.\<close>

definition json_dump :: "scores \<Rightarrow> json" where
  "json_dump sc = JObject (map (\<lambda>(k, v). (k, JInt v)) sc)"

text \<open>The body of the \<open>try\<close> of \<open>safe_save_scores\<close>: \<open>open(path, "w")\<close> fails on a
  path that cannot be written; otherwise the file holds the dumped record and nothing
  of what it held before.\<close>

definition save_scores_body :: "scores \<Rightarrow> path \<Rightarrow> world \<Rightarrow> (error + unit) \<times> world" where
  "save_scores_body sc p w =
     (if read_only w p \<or> files w p = Denied then (Inl OSError, w)
      else (Inr (), w\<lparr>files := (files w)(p := Json (json_dump sc))\<rparr>))"

definition safe_save_scores :: "scores \<Rightarrow> path \<Rightarrow> world \<Rightarrow> (error + unit) \<times> world" where
  "safe_save_scores sc p w =
     (case save_scores_body sc p w of
        (Inl e, w') \<Rightarrow> if is_exception e then (Inr (), w') else (Inl e, w')
      | (Inr u, w') \<Rightarrow> (Inr u, w'))"

section \<open>run\_interactive\<close>

record level =
  level_name :: pystr
  level_min :: int
  level_max :: int
  level_attempts :: "int option"

definition difficulty_presets :: "(pystr \<times> level) list" where
  "difficulty_presets =
     [(ascii ''1'', \<lparr>level_name = ascii ''Easy'', level_min = 1, level_max = 9, level_attempts = None\<rparr>),
      (ascii ''2'', \<lparr>level_name = ascii ''Medium'', level_min = 1, level_max = 20, level_attempts = Some 7\<rparr>),
      (ascii ''3'', \<lparr>level_name = ascii ''Hard'', level_min = 1, level_max = 50, level_attempts = Some 5\<rparr>)]"

text \<open>Lines 169 to 180: the menu.\<close>

definition show_menu :: "world \<Rightarrow> world" where
  "show_menu w =
     output_fn CustomLine
       (fold (\<lambda>(key, lvl).
                output_fn (PresetLine key (level_name lvl) (level_min lvl) (level_max lvl)
                             (level_attempts lvl)))
          difficulty_presets (output_fn ChooseDifficulty w))"

text \<open>
  Lines 181 to 199: the choice. \<open>None\<close> is the \<open>continue\<close> of the loop (back to the
  menu); otherwise the level and its difficulty key. The two bounds of a custom range
  are converted by a bare \<open>int(...)\<close>, outside any \<open>try\<close>.
\<close>

definition choose_level :: "world \<Rightarrow> (error + (level \<times> pystr) option) \<times> world" where
  "choose_level w =
     (case input_fn ChoicePrompt w of
        (Inl e, w1) \<Rightarrow> (Inl e, w1)
      | (Inr raw, w1) \<Rightarrow>
          (let choice = strip (unicode_db w1) raw in
           if choice = ascii ''4'' then
             (case input_fn MinimumPrompt w1 of
                (Inl e, w2) \<Rightarrow> (Inl e, w2)
              | (Inr raw_min, w2) \<Rightarrow>
                  (case py_int (unicode_db w2) (strip (unicode_db w2) raw_min) of
                     None \<Rightarrow> (Inl ValueError, w2)
                   | Some min_v \<Rightarrow>
                       (case input_fn MaximumPrompt w2 of
                          (Inl e, w3) \<Rightarrow> (Inl e, w3)
                        | (Inr raw_max, w3) \<Rightarrow>
                            (case py_int (unicode_db w3) (strip (unicode_db w3) raw_max) of
                               None \<Rightarrow> (Inl ValueError, w3)
                             | Some max_v \<Rightarrow>
                                 if min_v > max_v then (Inr None, output_fn MinAboveMax w3)
                                 else
                                   (Inr (Some
                                      (\<lparr>level_name = ascii ''Custom'', level_min = min_v,
                                        level_max = max_v, level_attempts = None\<rparr>,
                                       ascii ''custom_'' @ str_int min_v @ ascii ''_'' @
                                       str_int max_v)),
                                    w3)))))
           else
             (case map_of difficulty_presets choice of
                Some lvl \<Rightarrow> (Inr (Some (lvl, choice)), w1)
              | None \<Rightarrow> (Inr None, output_fn InvalidChoice w1))))"

text \<open>
  Lines 210 to 224: the best score of the difficulty key after a session. The stored
  values are integers already, so \<open>int(prev_best)\<close> is \<open>prev_best\<close>.
\<close>

definition score_update ::
  "bool \<Rightarrow> int \<Rightarrow> pystr \<Rightarrow> level \<Rightarrow> scores \<Rightarrow> path \<Rightarrow> world \<Rightarrow> (error + scores) \<times> world" where
  "score_update won attempts_used difficulty_key lvl best_score score_file w =
     (if won then
        (let prev_best = map_of best_score difficulty_key in
         if prev_best = None \<or> attempts_used < the prev_best then
           (let best_score' = AList.update difficulty_key attempts_used best_score in
            case safe_save_scores best_score' score_file w of
              (Inl e, w1) \<Rightarrow> (Inl e, w1)
            | (Inr u, w1) \<Rightarrow>
                (Inr best_score', output_fn (NewBest (level_name lvl) attempts_used) w1))
         else (Inr best_score, output_fn (YourAttempts attempts_used (the prev_best)) w))
      else (Inr best_score, output_fn TryAgain w))"

text \<open>Lines 227 to 233: the farewell and the leaderboard.\<close>

definition farewell :: "scores \<Rightarrow> world \<Rightarrow> world" where
  "farewell best_score w =
     (let w1 = output_fn Goodbye w in
      if best_score \<noteq> [] then
        fold (\<lambda>(k, v).
                output_fn (ScoreLine (case map_of difficulty_presets k of
                                        Some lvl \<Rightarrow> level_name lvl
                                      | None \<Rightarrow> k) v))
          best_score (output_fn BestScoresSaved w1)
      else w1)"

datatype flow = Again | Quit

text \<open>One round of the \<open>while True\<close> loop of \<open>run_interactive\<close>, lines 169 to 234, with
  the dictionary \<open>best_score\<close> as it stands after the round.\<close>

definition menu_round ::
  "nat \<Rightarrow> path \<Rightarrow> scores \<Rightarrow> world \<Rightarrow> (error + flow \<times> scores) \<times> world" where
  "menu_round rng score_file best_score w =
     (case choose_level (show_menu w) of
        (Inl e, w1) \<Rightarrow> (Inl e, w1)
      | (Inr None, w1) \<Rightarrow> (Inr (Again, best_score), w1)
      | (Inr (Some (lvl, difficulty_key)), w1) \<Rightarrow>
          (case play_game (level_min lvl) (level_max lvl) (level_attempts lvl) (Some rng) w1 of
             (Inl e, w2) \<Rightarrow> (Inl e, w2)
           | (Inr (attempts_used, won), w2) \<Rightarrow>
               (case score_update won attempts_used difficulty_key lvl best_score score_file w2 of
                  (Inl e, w3) \<Rightarrow> (Inl e, w3)
                | (Inr best_score', w3) \<Rightarrow>
                    (case get_yes_no PlayAgainPrompt w3 of
                       (Inl e, w4) \<Rightarrow> (Inl e, w4)
                     | (Inr again, w4) \<Rightarrow>
                         if \<not> again then (Inr (Quit, best_score'), farewell best_score' w4)
                         else (Inr (Again, best_score'), w4)))))"

text \<open>Each round of the loop consumes input: the measure of the loop below.\<close>

lemma pending_fold:
  "(\<And>x w. pending (g x w) = pending w) \<Longrightarrow> pending (fold g xs w) = pending w"
  by (induction xs arbitrary: w) simp_all

lemma pending_show_menu [simp]: "pending (show_menu w) = pending w"
  by (simp add: show_menu_def pending_fold split_beta)

lemma pending_farewell [simp]: "pending (farewell sc w) = pending w"
  by (simp add: farewell_def Let_def pending_fold split_beta)

lemma get_valid_number_pending_le:
  "get_valid_number p lo hi w = (r, w') \<Longrightarrow> length (pending w') \<le> length (pending w)"
proof (induction "pending w" arbitrary: w)
  case Nil
  then show ?case by (auto simp: get_valid_number_eof [of w])
next
  case (Cons x xs)
  from Cons.hyps(2) have pw: "pending w = x # xs" by simp
  show ?case
  proof (cases x)
    case CtrlC
    with pw Cons.prems show ?thesis by (auto simp: get_valid_number_ctrlc [of w xs])
  next
    case (Line s)
    with pw have step: "pending w = Line s # xs" by simp
    let ?bad = "\<lambda>m. w\<lparr>pending := xs, trace := trace w @ [Asked p, Said m]\<rparr>"
    have rec: "get_valid_number p lo hi (?bad m) = (r, w') \<Longrightarrow>
               length (pending w') \<le> Suc (length xs)" for m
      using Cons.hyps(1) [of "?bad m"] by simp
    show ?thesis
      using Cons.prems pw
      by (auto simp: get_valid_number_line [OF step] split: option.splits if_splits
               dest: rec)
  qed
qed

lemma play_loop_step:
  assumes "get_valid_number (AttemptPrompt (a + 1)) lo hi w = (g, w1)"
  shows "play_loop s lo hi m a w =
    (case g of
       Inl e \<Rightarrow> (Inl e, w1)
     | Inr guess \<Rightarrow>
         if guess = s then (Inr (a + 1, True), output_fn (Correct s (a + 1)) w1)
         else if (case m of None \<Rightarrow> False | Some n \<Rightarrow> a + 1 \<ge> n)
           then (Inr (a + 1, False),
                 output_fn (GameOver (the m) s) (output_fn (if guess < s then Higher else Lower) w1))
           else play_loop s lo hi m (a + 1) (output_fn (if guess < s then Higher else Lower) w1))"
  by (subst play_loop.simps) (auto simp: assms split: sum.splits option.splits)

lemma play_loop_pending_le:
  "play_loop s lo hi m a w = (r, w') \<Longrightarrow> length (pending w') \<le> length (pending w)"
proof (induction "length (pending w)" arbitrary: w a rule: less_induct)
  case less
  obtain g w1 where g: "get_valid_number (AttemptPrompt (a + 1)) lo hi w = (g, w1)"
    by (cases "get_valid_number (AttemptPrompt (a + 1)) lo hi w")
  note le1 = get_valid_number_pending_le [OF g]
  show ?case
  proof (cases g)
    case (Inl e)
    with less.prems le1 show ?thesis by (auto simp: play_loop_step [OF g])
  next
    case (Inr guess)
    with g have lt: "length (pending w1) < length (pending w)"
      by (auto dest: get_valid_number_shrinks)
    have rec: "play_loop s lo hi m (a + 1) (output_fn x w1) = (r, w') \<Longrightarrow>
               length (pending w') \<le> length (pending w)" for x
      using less.hyps [of "output_fn x w1" "a + 1"] lt by simp
    from less.prems Inr lt show ?thesis
      by (auto simp: play_loop_step [OF g] split: if_splits dest: rec)
  qed
qed

lemma pending_randint: "randint r a b w = (x, w') \<Longrightarrow> pending w' = pending w"
  by (auto simp: randint_def split: if_splits)

lemma pending_draw_secret: "draw_secret lo hi rng w = (x, w') \<Longrightarrow> pending w' = pending w"
  by (auto simp: draw_secret_def new_random_def split: option.splits dest: pending_randint)

lemma play_game_pending_le:
  "play_game lo hi m rng w = (r, w') \<Longrightarrow> length (pending w') \<le> length (pending w)"
  by (auto simp: play_game_def split: prod.splits sum.splits
           dest!: pending_draw_secret play_loop_pending_le)

lemma get_yes_no_pending_le:
  "get_yes_no p w = (r, w') \<Longrightarrow> length (pending w') \<le> length (pending w)"
proof (induction "length (pending w)" arbitrary: w rule: less_induct)
  case less
  obtain x w1 where i: "input_fn p w = (x, w1)" by (cases "input_fn p w")
  show ?case
  proof (cases x)
    case (Inl e)
    with i less.prems show ?thesis
      by (auto simp: get_yes_no.simps [of p w] input_fn_def split: list.splits inp.splits)
  next
    case (Inr raw)
    with i have lt: "length (pending w1) < length (pending w)"
      by (auto dest: input_fn_shrinks)
    have rec: "get_yes_no p (output_fn YesNoPlease w1) = (r, w') \<Longrightarrow>
               length (pending w') \<le> length (pending w)"
      using less.hyps [of "output_fn YesNoPlease w1"] lt by simp
    from less.prems i Inr lt show ?thesis
      by (auto simp: get_yes_no.simps [of p w] Let_def split: if_splits dest: rec)
  qed
qed

lemma pending_safe_save_scores:
  "safe_save_scores sc p w = (r, w') \<Longrightarrow> pending w' = pending w"
  by (auto simp: safe_save_scores_def save_scores_body_def split: if_splits)

lemma pending_score_update:
  "score_update won a k lvl sc p w = (r, w') \<Longrightarrow> pending w' = pending w"
  by (auto simp: score_update_def Let_def split: if_splits prod.splits sum.splits
           dest: pending_safe_save_scores)

lemma choose_level_shrinks:
  "choose_level w = (Inr r, w') \<Longrightarrow> length (pending w') < length (pending w)"
  by (auto simp: choose_level_def Let_def
           split: prod.splits sum.splits option.splits if_splits
           dest!: input_fn_shrinks)

lemma menu_round_shrinks:
  "menu_round rng p sc w = (Inr r, w') \<Longrightarrow> length (pending w') < length (pending w)"
  by (auto simp: menu_round_def
           split: prod.splits sum.splits option.splits if_splits
           dest!: choose_level_shrinks play_game_pending_le pending_score_update
                  get_yes_no_pending_le)

text \<open>The \<open>while True\<close> loop of \<open>run_interactive\<close>.\<close>

function main_loop :: "nat \<Rightarrow> path \<Rightarrow> scores \<Rightarrow> world \<Rightarrow> (error + unit) \<times> world" where
  "main_loop rng score_file best_score w =
     (case menu_round rng score_file best_score w of
        (Inl e, w') \<Rightarrow> (Inl e, w')
      | (Inr (Quit, best_score'), w') \<Rightarrow> (Inr (), w')
      | (Inr (Again, best_score'), w') \<Rightarrow> main_loop rng score_file best_score' w')"
  by pat_completeness auto
termination
  by (relation "measure (\<lambda>(rng, p, sc, w). length (pending w))")
     (auto dest: menu_round_shrinks [OF sym])

declare main_loop.simps [simp del]

text \<open>
  \<open>run_interactive\<close>: the generator (seeded when a seed is given), the stored scores,
  the banner, then the loop inside \<open>try\<close>; only \<open>KeyboardInterrupt\<close> is handled.
\<close>

definition run_interactive ::
  "(int \<Rightarrow> rng) \<Rightarrow> int option \<Rightarrow> path \<Rightarrow> world \<Rightarrow> (error + unit) \<times> world" where
  "run_interactive seeding seed score_file w =
     (case (case seed of Some s \<Rightarrow> new_random_seeded seeding s w | None \<Rightarrow> new_random w) of
        (rng, w1) \<Rightarrow>
          (case safe_load_scores score_file w1 of
             Inl e \<Rightarrow> (Inl e, w1)
           | Inr scores \<Rightarrow>
               (case main_loop rng score_file scores (output_fn Banner w1) of
                  (Inl e, w2) \<Rightarrow>
                    if e = KeyboardInterrupt then (Inr (), output_fn Interrupted w2)
                    else (Inl e, w2)
                | (Inr u, w2) \<Rightarrow> (Inr u, w2))))"

section \<open>Notions used to state the properties\<close>

text \<open>
  What \<open>int\<close> accepts, in the words of the language reference: optional white space, an
  optional sign, then the digit part, a digit followed by digits, each of which a single
  underscore may precede, then optional white space. The value is that of the digits.
\<close>

inductive digitpart :: "pystr \<Rightarrow> bool" where
  one: "is_digit d \<Longrightarrow> digitpart [d]"
| more: "is_digit d \<Longrightarrow> digitpart ds \<Longrightarrow> digitpart (d # ds)"
| group: "is_digit d \<Longrightarrow> digitpart ds \<Longrightarrow> digitpart (d # 95 # ds)"

definition decimal_value :: "pystr \<Rightarrow> int" where
  "decimal_value ds = foldl (\<lambda>a c. a * 10 + digit_val c) 0 (filter is_digit ds)"

definition int_literal :: "pystr \<Rightarrow> int \<Rightarrow> bool" where
  "int_literal s v =
     (\<exists>pre sgn ds post.
        s = pre @ sgn @ ds @ post \<and> list_all is_c_space pre \<and> list_all is_c_space post \<and>
        digitpart ds \<and>
        (sgn = [] \<and> v = decimal_value ds \<or> sgn = [43] \<and> v = decimal_value ds \<or>
         sgn = [45] \<and> v = - decimal_value ds))"

text \<open>A line that \<open>get_valid_number\<close> returns from: it converts, to a value in range.\<close>

definition accepted :: "unicode \<Rightarrow> int \<Rightarrow> int \<Rightarrow> pystr \<Rightarrow> bool" where
  "accepted U lo hi s = (case py_int U s of None \<Rightarrow> False | Some v \<Rightarrow> lo \<le> v \<and> v \<le> hi)"

text \<open>The message a line that is not accepted is answered with.\<close>

definition complaint :: "unicode \<Rightarrow> int \<Rightarrow> int \<Rightarrow> pystr \<Rightarrow> message" where
  "complaint U lo hi s = (case py_int U s of None \<Rightarrow> InvalidInput | Some v \<Rightarrow> EnterBetween lo hi)"

text \<open>The guesses a session reads from an input source: the values of the accepted lines,
  up to the first Ctrl-C.\<close>

fun validated :: "unicode \<Rightarrow> int \<Rightarrow> int \<Rightarrow> inp list \<Rightarrow> int list" where
  "validated U lo hi [] = []"
| "validated U lo hi (CtrlC # rest) = []"
| "validated U lo hi (Line s # rest) =
     (if accepted U lo hi s then the (py_int U s) # validated U lo hi rest
      else validated U lo hi rest)"

text \<open>A path at which \<open>open(path, "w")\<close> succeeds.\<close>

definition writable :: "world \<Rightarrow> path \<Rightarrow> bool" where
  "writable w p = (\<not> read_only w p \<and> files w p \<noteq> Denied)"

text \<open>A fragment of the Unicode database, to run the functions with: the no-break space
  (160) is white space and the Arabic-Indic digits (1632 to 1641) are decimal digits.\<close>

definition demo_unicode :: unicode where
  "demo_unicode =
     \<lparr>uni_space = (\<lambda>c. c = 160),
      uni_decimal = (\<lambda>c. if 1632 \<le> c \<and> c \<le> 1641 then Some (c - 1632) else None),
      uni_lower = (\<lambda>s. s)\<rparr>"

text \<open>A world to run the functions in: the given input source and the given content at
  every path, an empty trace, and generators that deliver the variate 4 for ever.\<close>

definition demo_world :: "inp list \<Rightarrow> file_state \<Rightarrow> world" where
  "demo_world ins f =
     \<lparr>unicode_db = demo_unicode, pending = ins, trace = [], files = (\<lambda>_. f),
      read_only = (\<lambda>_. False), rngs = (\<lambda>_. sconst 4), next_rng = 0\<rparr>"

text \<open>Two worlds with the same interpreter, the same files and the same generators: all
  that may differ is the input still pending and the trace.\<close>

definition same_store :: "world \<Rightarrow> world \<Rightarrow> bool" where
  "same_store w w' =
     (unicode_db w' = unicode_db w \<and> files w' = files w \<and> read_only w' = read_only w \<and>
      rngs w' = rngs w \<and> next_rng w' = next_rng w)"

lemmas py_int_eval =
  py_int_def to_ascii_def parse_int_def int_strip_def is_c_space_def unsigned_literal_def
  is_digit_def digit_val_def ascii_def

section \<open>Lemmas\<close>

text \<open>The reading of integers is the grammar.\<close>

lemma not_digit_underscore [simp]: "\<not> is_digit 95"
  by (simp add: is_digit_def)

lemma digit_not_space: "is_digit c \<Longrightarrow> \<not> is_c_space c"
  by (auto simp: is_digit_def is_c_space_def)

lemma digitpart_ends:
  "digitpart ds \<Longrightarrow> ds \<noteq> [] \<and> is_digit (hd ds) \<and> is_digit (last ds)"
  by (induction rule: digitpart.induct) auto

lemma digitpart_value:
  "digitpart ds \<Longrightarrow>
   digits_value ds acc = Some (foldl (\<lambda>a c. a * 10 + digit_val c) acc (filter is_digit ds))"
proof (induction arbitrary: acc rule: digitpart.induct)
  case (one d)
  then show ?case by simp
next
  case (more d ds)
  then show ?case by simp
next
  case (group d ds)
  from digitpart_ends [OF group.hyps(2)] obtain e es where "ds = e # es" "is_digit e"
    by (cases ds) auto
  with group.hyps(1)
  have "digits_value (d # 95 # ds) acc = digits_value ds (acc * 10 + digit_val d)" by simp
  also have "\<dots> = Some (foldl (\<lambda>a c. a * 10 + digit_val c) (acc * 10 + digit_val d)
                            (filter is_digit ds))"
    by (rule group.IH)
  finally show ?case using group.hyps(1) by simp
qed

lemma digits_value_shape:
  "digits_value s acc = Some v \<Longrightarrow>
   (s = [] \<or> digitpart s \<or> (\<exists>t. s = 95 # t \<and> digitpart t)) \<and>
   v = foldl (\<lambda>a c. a * 10 + digit_val c) acc (filter is_digit s)"
proof (induction s acc rule: digits_value.induct)
  case (1 acc)
  then show ?case by simp
next
  case (2 c cs acc)
  show ?case
  proof (cases "is_digit c")
    case True
    with "2.prems" have "digits_value cs (acc * 10 + digit_val c) = Some v" by simp
    from "2.IH"(1) [OF True this] True show ?thesis
      by (auto intro: digitpart.intros)
  next
    case False
    with "2.prems" have u: "c = 95" and d: "case cs of [] \<Rightarrow> False | d # _ \<Rightarrow> is_digit d"
      and r: "digits_value cs acc = Some v"
      by (auto split: if_splits)
    from d obtain e es where cs: "cs = e # es" "is_digit e" by (cases cs) auto
    from "2.IH"(2) [OF False _ r] u d
    have "(cs = [] \<or> digitpart cs \<or> (\<exists>t. cs = 95 # t \<and> digitpart t)) \<and>
          v = foldl (\<lambda>a c. a * 10 + digit_val c) acc (filter is_digit cs)" by simp
    with cs u show ?thesis by auto
  qed
qed

lemma unsigned_literal_iff:
  "unsigned_literal s = Some v \<longleftrightarrow> digitpart s \<and> v = decimal_value s"
proof
  assume a: "unsigned_literal s = Some v"
  then obtain c cs where s: "s = c # cs" "is_digit c" "digits_value s 0 = Some v"
    by (auto simp: unsigned_literal_def split: list.splits if_splits)
  from digits_value_shape [OF s(3)] s(1,2) show "digitpart s \<and> v = decimal_value s"
    by (auto simp: decimal_value_def)
next
  assume a: "digitpart s \<and> v = decimal_value s"
  with digitpart_ends [of s] obtain c cs where "s = c # cs" "is_digit c" by (cases s) auto
  with a digitpart_value [of s 0] show "unsigned_literal s = Some v"
    by (simp add: unsigned_literal_def decimal_value_def)
qed

lemma int_strip_parts:
  "\<exists>pre post. s = pre @ int_strip s @ post \<and> list_all is_c_space pre \<and> list_all is_c_space post"
proof -
  let ?t = "dropWhile is_c_space s"
  have "s = takeWhile is_c_space s @ ?t" by simp
  moreover have "?t = int_strip s @ rev (takeWhile is_c_space (rev ?t))"
  proof -
    have "?t = rev (takeWhile is_c_space (rev ?t) @ dropWhile is_c_space (rev ?t))"
      by (simp only: takeWhile_dropWhile_id rev_rev_ident)
    then show ?thesis by (simp only: rev_append int_strip_def)
  qed
  moreover have "list_all is_c_space (takeWhile is_c_space s)"
    "list_all is_c_space (rev (takeWhile is_c_space (rev ?t)))"
    by (auto simp: list_all_iff dest: set_takeWhileD)
  ultimately show ?thesis by metis
qed

lemma int_strip_middle:
  assumes "mid \<noteq> []" "\<not> is_c_space (hd mid)" "\<not> is_c_space (last mid)"
    and "list_all is_c_space pre" "list_all is_c_space post"
  shows "int_strip (pre @ mid @ post) = mid"
proof -
  from assms(1,2) obtain m ms where m: "mid = m # ms" "\<not> is_c_space m" by (cases mid) auto
  from assms(4) have "dropWhile is_c_space (pre @ mid @ post) = dropWhile is_c_space (mid @ post)"
    by (intro dropWhile_append2) (simp add: list_all_iff)
  also have "\<dots> = mid @ post" using m by simp
  finally have 1: "dropWhile is_c_space (pre @ mid @ post) = mid @ post" .
  from assms(1,3) obtain l ls where l: "rev mid = l # ls" "\<not> is_c_space l"
    by (cases "rev mid") (auto simp: last_rev [symmetric] hd_rev)
  from assms(5) have "dropWhile is_c_space (rev post @ rev mid) = dropWhile is_c_space (rev mid)"
    by (intro dropWhile_append2) (simp add: list_all_iff)
  also have "\<dots> = rev mid" using l by simp
  finally have "dropWhile is_c_space (rev (mid @ post)) = rev mid" by simp
  with 1 show ?thesis by (simp add: int_strip_def)
qed

lemma parse_int_iff: "parse_int s = Some v \<longleftrightarrow> int_literal s v"
proof
  assume p: "parse_int s = Some v"
  from int_strip_parts [of s] obtain pre post where
    s: "s = pre @ int_strip s @ post" "list_all is_c_space pre" "list_all is_c_space post"
    by blast
  from p obtain c cs where t: "int_strip s = c # cs"
    by (auto simp: parse_int_def split: list.splits)
  consider (neg) "c = 45" | (pos) "c = 43" | (none) "c \<noteq> 45" "c \<noteq> 43" by blast
  then show "int_literal s v"
  proof cases
    case neg
    with p t obtain u where "unsigned_literal cs = Some u" "v = - u"
      by (auto simp: parse_int_def)
    then have "digitpart cs" "v = - decimal_value cs" by (simp_all add: unsigned_literal_iff)
    moreover from s(1) t neg have "s = pre @ [45] @ cs @ post" by simp
    ultimately show ?thesis using s(2,3) unfolding int_literal_def by blast
  next
    case pos
    with p t have "unsigned_literal cs = Some v" by (auto simp: parse_int_def)
    then have "digitpart cs" "v = decimal_value cs" by (simp_all add: unsigned_literal_iff)
    moreover from s(1) t pos have "s = pre @ [43] @ cs @ post" by simp
    ultimately show ?thesis using s(2,3) unfolding int_literal_def by blast
  next
    case none
    with p t have "unsigned_literal (c # cs) = Some v" by (auto simp: parse_int_def)
    then have "digitpart (c # cs)" "v = decimal_value (c # cs)"
      by (simp_all add: unsigned_literal_iff)
    moreover from s(1) t have "s = pre @ [] @ (c # cs) @ post" by simp
    ultimately show ?thesis using s(2,3) unfolding int_literal_def by blast
  qed
next
  assume "int_literal s v"
  then obtain pre sgn ds post where
    s: "s = pre @ sgn @ ds @ post" "list_all is_c_space pre" "list_all is_c_space post"
       "digitpart ds"
    and v: "sgn = [] \<and> v = decimal_value ds \<or> sgn = [43] \<and> v = decimal_value ds \<or>
            sgn = [45] \<and> v = - decimal_value ds"
    unfolding int_literal_def by blast
  from digitpart_ends [OF s(4)] obtain d ds' where d: "ds = d # ds'" "is_digit d" "is_digit (last ds)"
    by (cases ds) auto
  have u: "unsigned_literal ds = Some (decimal_value ds)"
    using s(4) by (simp add: unsigned_literal_iff)
  have sg: "sgn = [] \<or> sgn = [43] \<or> sgn = [45]" using v by blast
  have mid: "int_strip (pre @ (sgn @ ds) @ post) = sgn @ ds"
  proof (rule int_strip_middle)
    show "sgn @ ds \<noteq> []" using d by simp
    show "\<not> is_c_space (hd (sgn @ ds))"
      using sg d digit_not_space [of d] by (auto simp: is_c_space_def)
    show "\<not> is_c_space (last (sgn @ ds))" using d digit_not_space [of "last ds"] by simp
  qed (fact s(2), fact s(3))
  then have strip: "int_strip s = sgn @ ds" using s(1) by simp
  have nd: "d \<noteq> 45" "d \<noteq> 43" using d(2) by (auto simp: is_digit_def)
  from v show "parse_int s = Some v"
  proof (elim disjE conjE)
    assume "sgn = []" "v = decimal_value ds"
    with strip d nd u show ?thesis by (simp add: parse_int_def)
  next
    assume "sgn = [43]" "v = decimal_value ds"
    with strip u show ?thesis by (simp add: parse_int_def)
  next
    assume "sgn = [45]" "v = - decimal_value ds"
    with strip u show ?thesis by (simp add: parse_int_def)
  qed
qed

lemma to_ascii_ascii: "list_all (\<lambda>c. c < 128) s \<Longrightarrow> to_ascii U s = s"
  by (simp add: to_ascii_def)

lemma py_int_iff: "py_int U s = Some v \<longleftrightarrow> int_literal (to_ascii U s) v"
  by (simp add: py_int_def parse_int_iff)

text \<open>Reading and writing leave the rest of the world alone.\<close>

lemma same_store_refl [simp]: "same_store w w"
  by (simp add: same_store_def)

lemma same_store_trans: "same_store w w1 \<Longrightarrow> same_store w1 w2 \<Longrightarrow> same_store w w2"
  by (simp add: same_store_def)

lemma same_store_output_fn [simp]:
  "same_store w (output_fn m w') = same_store w w'"
  "same_store (output_fn m w) w' = same_store w w'"
  by (simp_all add: same_store_def output_fn_def)

lemma same_store_talk [simp]:
  "same_store w (w'\<lparr>pending := ps\<rparr>) = same_store w w'"
  "same_store w (w'\<lparr>trace := tr\<rparr>) = same_store w w'"
  "same_store (w\<lparr>pending := ps\<rparr>) w' = same_store w w'"
  "same_store (w\<lparr>trace := tr\<rparr>) w' = same_store w w'"
  by (simp_all add: same_store_def)

lemma same_store_input_fn: "input_fn p w = (r, w') \<Longrightarrow> same_store w w'"
  by (auto simp: input_fn_def same_store_def split: list.splits inp.splits)

lemma same_store_fold:
  "(\<And>x w. same_store w (g x w)) \<Longrightarrow> same_store w (fold g xs w)"
proof (induction xs arbitrary: w)
  case Nil
  show ?case by simp
next
  case (Cons x xs)
  from Cons.prems have "same_store w (g x w)" .
  moreover have "same_store (g x w) (fold g xs (g x w))" by (rule Cons.IH) (rule Cons.prems)
  ultimately show ?case by (auto intro: same_store_trans)
qed

lemma same_store_show_menu [simp]: "same_store w (show_menu w)"
proof -
  have "same_store (output_fn ChooseDifficulty w)
     (fold (\<lambda>(key, lvl).
                output_fn (PresetLine key (level_name lvl) (level_min lvl) (level_max lvl)
                             (level_attempts lvl)))
          difficulty_presets (output_fn ChooseDifficulty w))"
    by (rule same_store_fold) (simp add: split_beta)
  then show ?thesis by (simp add: show_menu_def)
qed

lemma same_store_farewell [simp]: "same_store w (farewell sc w)"
proof -
  let ?g = "\<lambda>(k, v). output_fn (ScoreLine (case map_of difficulty_presets k of
                                        Some lvl \<Rightarrow> level_name lvl
                                      | None \<Rightarrow> k) v)"
  have "same_store (output_fn BestScoresSaved (output_fn Goodbye w))
          (fold ?g sc (output_fn BestScoresSaved (output_fn Goodbye w)))"
    by (rule same_store_fold) (simp add: split_beta)
  then show ?thesis by (simp add: farewell_def Let_def)
qed

lemma same_store_get_valid_number:
  "get_valid_number p lo hi w = (r, w') \<Longrightarrow> same_store w w'"
proof (induction "pending w" arbitrary: w)
  case Nil
  then show ?case by (auto simp: get_valid_number_eof [of w])
next
  case (Cons x xs)
  from Cons.hyps(2) have pw: "pending w = x # xs" by simp
  show ?case
  proof (cases x)
    case CtrlC
    with pw Cons.prems show ?thesis by (auto simp: get_valid_number_ctrlc [of w xs])
  next
    case (Line s)
    with pw have step: "pending w = Line s # xs" by simp
    let ?bad = "\<lambda>m. w\<lparr>pending := xs, trace := trace w @ [Asked p, Said m]\<rparr>"
    have rec: "get_valid_number p lo hi (?bad m) = (r, w') \<Longrightarrow> same_store w w'" for m
      using Cons.hyps(1) [of "?bad m"] by simp
    show ?thesis
      using Cons.prems
      by (auto simp: get_valid_number_line [OF step] split: option.splits if_splits
               dest: rec)
  qed
qed


lemma same_store_get_yes_no:
  "get_yes_no p w = (r, w') \<Longrightarrow> same_store w w'"
proof (induction "length (pending w)" arbitrary: w rule: less_induct)
  case less
  obtain x w1 where i: "input_fn p w = (x, w1)" by (cases "input_fn p w")
  note s1 = same_store_input_fn [OF i]
  show ?case
  proof (cases x)
    case (Inl e)
    with i less.prems s1 show ?thesis
      by (auto simp: get_yes_no.simps [of p w])
  next
    case (Inr raw)
    with i have lt: "length (pending w1) < length (pending w)"
      by (auto dest: input_fn_shrinks)
    have rec: "get_yes_no p (output_fn YesNoPlease w1) = (r, w') \<Longrightarrow> same_store w w'"
      using less.hyps [of "output_fn YesNoPlease w1"] lt s1 by (auto intro: same_store_trans)
    from less.prems i Inr s1 show ?thesis
      by (auto simp: get_yes_no.simps [of p w] Let_def split: if_splits dest: rec)
  qed
qed

lemma same_store_choose_level:
  "choose_level w = (r, w') \<Longrightarrow> same_store w w'"
  by (auto simp: choose_level_def Let_def
           split: prod.splits sum.splits option.splits if_splits
           dest!: same_store_input_fn intro: same_store_trans)

text \<open>The reader, line by line.\<close>

lemma get_valid_number_skip:
  assumes "\<not> accepted (unicode_db w) lo hi t" and "pending w = Line t # rest"
  shows "get_valid_number p lo hi w =
         get_valid_number p lo hi
           (w\<lparr>pending := rest,
              trace := trace w @ [Asked p, Said (complaint (unicode_db w) lo hi t)]\<rparr>)"
  using assms(1)
  by (auto simp: get_valid_number_line [OF assms(2)] accepted_def complaint_def
           split: option.splits)

lemma get_valid_number_accept:
  assumes "py_int (unicode_db w) s = Some v" "lo \<le> v" "v \<le> hi" and "pending w = Line s # rest"
  shows "get_valid_number p lo hi w = (Inr v, w\<lparr>pending := rest, trace := trace w @ [Asked p]\<rparr>)"
  using assms(1-3) by (simp add: get_valid_number_line [OF assms(4)])

lemma get_valid_number_returned:
  "get_valid_number p lo hi w = (Inr v, w') \<Longrightarrow>
   lo \<le> v \<and> v \<le> hi \<and>
   (\<exists>bad s rest.
      pending w = map Line bad @ Line s # rest \<and>
      (\<forall>t \<in> set bad. \<not> accepted (unicode_db w) lo hi t) \<and>
      py_int (unicode_db w) s = Some v \<and>
      w' = w\<lparr>pending := rest,
             trace := trace w @
               concat (map (\<lambda>t. [Asked p, Said (complaint (unicode_db w) lo hi t)]) bad)
               @ [Asked p]\<rparr>)"
proof (induction "pending w" arbitrary: w)
  case Nil
  then show ?case by (simp add: get_valid_number_eof [of w])
next
  case (Cons x xs)
  from Cons.hyps(2) have pw: "pending w = x # xs" by simp
  show ?case
  proof (cases x)
    case CtrlC
    with pw Cons.prems show ?thesis by (simp add: get_valid_number_ctrlc [of w xs])
  next
    case (Line s)
    with pw have step: "pending w = Line s # xs" by simp
    show ?thesis
    proof (cases "accepted (unicode_db w) lo hi s")
      case True
      then obtain u where u: "py_int (unicode_db w) s = Some u" "lo \<le> u" "u \<le> hi"
        by (auto simp: accepted_def split: option.splits)
      from Cons.prems get_valid_number_accept [OF u step, of p]
      have "v = u" "w' = w\<lparr>pending := xs, trace := trace w @ [Asked p]\<rparr>" by simp_all
      with u step show ?thesis
        by (intro conjI exI [of _ "[]"] exI [of _ s] exI [of _ xs]) simp_all
    next
      case False
      let ?w = "w\<lparr>pending := xs,
                  trace := trace w @ [Asked p, Said (complaint (unicode_db w) lo hi s)]\<rparr>"
      from Cons.prems get_valid_number_skip [OF False step, of p]
      have "get_valid_number p lo hi ?w = (Inr v, w')" by simp
      with Cons.hyps(1) [of ?w] obtain bad s' rest where
        r: "lo \<le> v" "v \<le> hi" "xs = map Line bad @ Line s' # rest"
           "\<forall>t \<in> set bad. \<not> accepted (unicode_db w) lo hi t"
           "py_int (unicode_db w) s' = Some v"
           "w' = ?w\<lparr>pending := rest,
                  trace := trace ?w @
                    concat (map (\<lambda>t. [Asked p, Said (complaint (unicode_db w) lo hi t)]) bad)
                    @ [Asked p]\<rparr>"
        by auto
      with step False show ?thesis
        by (intro conjI exI [of _ "s # bad"] exI [of _ s'] exI [of _ rest]) simp_all
    qed
  qed
qed

lemma get_valid_number_skips:
  "\<forall>t \<in> set bad. \<not> accepted (unicode_db w) lo hi t \<Longrightarrow> pending w = map Line bad @ rest \<Longrightarrow>
   get_valid_number p lo hi w =
   get_valid_number p lo hi
     (w\<lparr>pending := rest,
        trace := trace w @
          concat (map (\<lambda>t. [Asked p, Said (complaint (unicode_db w) lo hi t)]) bad)\<rparr>)"
proof (induction bad arbitrary: w)
  case Nil
  then show ?case by (cases w) simp
next
  case (Cons t bad)
  let ?w = "w\<lparr>pending := map Line bad @ rest,
              trace := trace w @ [Asked p, Said (complaint (unicode_db w) lo hi t)]\<rparr>"
  from Cons.prems have "get_valid_number p lo hi w = get_valid_number p lo hi ?w"
    by (intro get_valid_number_skip) auto
  also have "\<dots> = get_valid_number p lo hi
     (?w\<lparr>pending := rest,
         trace := trace ?w @
           concat (map (\<lambda>t. [Asked p, Said (complaint (unicode_db ?w) lo hi t)]) bad)\<rparr>)"
    using Cons.prems by (intro Cons.IH) auto
  finally show ?case by simp
qed

lemma get_valid_number_inputs:
  "unicode_db w1 = unicode_db w2 \<Longrightarrow> pending w1 = pending w2 \<Longrightarrow>
   fst (get_valid_number p lo hi w1) = fst (get_valid_number q lo hi w2) \<and>
   pending (snd (get_valid_number p lo hi w1)) = pending (snd (get_valid_number q lo hi w2))"
proof (induction "pending w1" arbitrary: w1 w2)
  case Nil
  then show ?case by (simp add: get_valid_number_eof)
next
  case (Cons x xs)
  from Cons.hyps(2) Cons.prems have p1: "pending w1 = x # xs" and p2: "pending w2 = x # xs"
    by simp_all
  note u = Cons.prems(1)
  show ?case
  proof (cases x)
    case CtrlC
    with p1 p2 show ?thesis by (simp add: get_valid_number_ctrlc)
  next
    case (Line s)
    with p1 p2 have s1: "pending w1 = Line s # xs" and s2: "pending w2 = Line s # xs"
      by simp_all
    have rec: "fst (get_valid_number p lo hi (w1\<lparr>pending := xs, trace := t1\<rparr>)) =
               fst (get_valid_number q lo hi (w2\<lparr>pending := xs, trace := t2\<rparr>)) \<and>
               pending (snd (get_valid_number p lo hi (w1\<lparr>pending := xs, trace := t1\<rparr>))) =
               pending (snd (get_valid_number q lo hi (w2\<lparr>pending := xs, trace := t2\<rparr>)))"
      for t1 t2
      using u by (intro Cons.hyps(1)) simp_all
    show ?thesis
      by (simp add: get_valid_number_line [OF s1] get_valid_number_line [OF s2] rec u
               split: option.splits)
  qed
qed

lemma play_loop_inputs:
  "unicode_db w1 = unicode_db w2 \<Longrightarrow> pending w1 = pending w2 \<Longrightarrow>
   fst (play_loop s lo hi m a w1) = fst (play_loop s lo hi m a w2) \<and>
   pending (snd (play_loop s lo hi m a w1)) = pending (snd (play_loop s lo hi m a w2))"
proof (induction "length (pending w1)" arbitrary: w1 w2 a rule: less_induct)
  case less
  obtain g1 v1 where g1: "get_valid_number (AttemptPrompt (a + 1)) lo hi w1 = (g1, v1)"
    by (cases "get_valid_number (AttemptPrompt (a + 1)) lo hi w1")
  obtain g2 v2 where g2: "get_valid_number (AttemptPrompt (a + 1)) lo hi w2 = (g2, v2)"
    by (cases "get_valid_number (AttemptPrompt (a + 1)) lo hi w2")
  from get_valid_number_inputs [OF less.prems, of "AttemptPrompt (a + 1)" lo hi "AttemptPrompt (a + 1)"]
    g1 g2
  have same: "g1 = g2" "pending v1 = pending v2" by simp_all
  from same_store_get_valid_number [OF g1] same_store_get_valid_number [OF g2] less.prems(1)
  have u: "unicode_db v1 = unicode_db v2" by (simp add: same_store_def)
  show ?case
  proof (cases g1)
    case (Inl e)
    with same have "g2 = Inl e" by simp
    with Inl same show ?thesis by (simp add: play_loop_step [OF g1] play_loop_step [OF g2])
  next
    case (Inr guess)
    with g1 have lt: "length (pending v1) < length (pending w1)"
      by (auto dest: get_valid_number_shrinks)
    have rec: "fst (play_loop s lo hi m (a + 1) (output_fn x v1)) =
               fst (play_loop s lo hi m (a + 1) (output_fn x v2)) \<and>
               pending (snd (play_loop s lo hi m (a + 1) (output_fn x v1))) =
               pending (snd (play_loop s lo hi m (a + 1) (output_fn x v2)))" for x
      using lt same u by (intro less.hyps) (simp_all add: output_fn_def)
    from Inr same have "g2 = Inr guess" by simp
    with Inr same show ?thesis
      by (simp add: play_loop_step [OF g1] play_loop_step [OF g2] rec)
  qed
qed

text \<open>The score store.\<close>

lemma update_fresh:
  "k \<notin> fst ` set acc \<Longrightarrow> AList.update k v acc = acc @ [(k, v)]"
  by (induction acc) auto

lemma int_of_json_error:
  "int_of_json U v = Inl e \<Longrightarrow> is_exception e"
  by (cases "(U, v)" rule: int_of_json.cases) (auto simp: is_exception_def split: option.splits)

lemma convert_items_error:
  "convert_items U kvs acc = Inl e \<Longrightarrow> is_exception e"
  by (induction U kvs acc rule: convert_items.induct)
     (auto split: sum.splits dest: int_of_json_error)

lemma load_scores_body_error:
  "load_scores_body p w = Inl e \<Longrightarrow> is_exception e"
  by (auto simp: load_scores_body_def is_exception_def split: file_state.splits json.splits if_splits
           dest: convert_items_error)

lemma convert_items_fails:
  "(k, v) \<in> set kvs \<Longrightarrow> int_of_json U v = Inl e \<Longrightarrow> \<exists>e'. convert_items U kvs acc = Inl e'"
  by (induction U kvs acc rule: convert_items.induct) (auto split: sum.splits)

lemma convert_items_all:
  "\<forall>(k, v) \<in> set kvs. \<exists>i. int_of_json U v = Inr i \<Longrightarrow>
   distinct (map fst kvs) \<Longrightarrow> fst ` set acc \<inter> fst ` set kvs = {} \<Longrightarrow>
   convert_items U kvs acc = Inr (acc @ map (\<lambda>(k, v). (k, projr (int_of_json U v))) kvs)"
proof (induction U kvs acc rule: convert_items.induct)
  case (1 U acc)
  then show ?case by simp
next
  case (2 U k v kvs acc)
  from "2.prems"(1) obtain i where i: "int_of_json U v = Inr i" by auto
  from "2.prems"(3) have fresh: "k \<notin> fst ` set acc" by auto
  have "convert_items U kvs (AList.update k i acc) =
        Inr (AList.update k i acc @ map (\<lambda>(k, v). (k, projr (int_of_json U v))) kvs)"
    using "2.prems" i fresh
    by (intro "2.IH" [OF i]) (auto simp: update_fresh)
  with i fresh show ?case by (simp add: update_fresh)
qed

lemma convert_items_dump:
  "distinct (map fst sc) \<Longrightarrow> fst ` set acc \<inter> fst ` set sc = {} \<Longrightarrow>
   convert_items U (map (\<lambda>(k, v). (k, JInt v)) sc) acc = Inr (acc @ sc)"
proof (induction sc arbitrary: acc)
  case Nil
  then show ?case by simp
next
  case (Cons kv sc)
  obtain k v where kv: "kv = (k, v)" by (cases kv)
  from Cons.prems kv have fresh: "k \<notin> fst ` set acc" by auto
  have "convert_items U (map (\<lambda>(k, v). (k, JInt v)) sc) (acc @ [(k, v)]) = Inr ((acc @ [(k, v)]) @ sc)"
    using Cons.prems kv by (intro Cons.IH) auto
  with fresh kv show ?case by (simp add: update_fresh)
qed

lemma safe_load_scores_file:
  "unicode_db w1 = unicode_db w2 \<Longrightarrow> files w1 p = files w2 p \<Longrightarrow>
   safe_load_scores p w1 = safe_load_scores p w2"
  by (auto simp: safe_load_scores_def load_scores_body_def
           split: file_state.splits json.splits)

lemma safe_load_scores_caught:
  "load_scores_body p w = Inl x \<Longrightarrow> safe_load_scores p w = Inr []"
  using load_scores_body_error [of p w x] by (simp add: safe_load_scores_def)

lemma safe_load_scores_bad_value:
  assumes "files w p = Json (JObject kvs)" and "(k, v) \<in> set kvs"
    and "int_of_json (unicode_db w) v = Inl e"
  shows "safe_load_scores p w = Inr []"
proof -
  from assms(2,3) obtain x where "convert_items (unicode_db w) kvs [] = Inl x"
    using convert_items_fails by blast
  with assms(1) have "load_scores_body p w = Inl x" by (simp add: load_scores_body_def)
  then show ?thesis by (rule safe_load_scores_caught)
qed

text \<open>The session.\<close>

lemma last_trace_output_fn [simp]: "last (trace (output_fn m w)) = Said m"
  by (simp add: output_fn_def)

lemma unicode_db_output_fn [simp]: "unicode_db (output_fn m w) = unicode_db w"
  by (simp add: output_fn_def)

lemma unicode_db_get_valid_number:
  "get_valid_number p lo hi w = (r, w') \<Longrightarrow> unicode_db w' = unicode_db w"
  by (drule same_store_get_valid_number) (simp add: same_store_def)

lemma validated_cons:
  "unicode_db w = U \<Longrightarrow> validated U lo hi (pending w) = v # vs \<Longrightarrow>
   \<exists>w'. get_valid_number p lo hi w = (Inr v, w') \<and> validated U lo hi (pending w') = vs \<and>
        (\<forall>q. Asked q \<in> set (trace w') \<longrightarrow> Asked q \<in> set (trace w) \<or> q = p)"
proof (induction "pending w" arbitrary: w)
  case Nil
  then show ?case by simp
next
  case (Cons x xs)
  from Cons.hyps(2) have pw: "pending w = x # xs" by simp
  note u = Cons.prems(1)
  show ?case
  proof (cases x)
    case CtrlC
    with pw Cons.prems show ?thesis by simp
  next
    case (Line s)
    with pw have step: "pending w = Line s # xs" by simp
    show ?thesis
    proof (cases "accepted U lo hi s")
      case True
      with Cons.prems step have "v = the (py_int U s)" "vs = validated U lo hi xs" by simp_all
      with True step u show ?thesis
        by (auto simp: accepted_def get_valid_number_line split: option.splits)
    next
      case False
      let ?w = "w\<lparr>pending := xs, trace := trace w @ [Asked p, Said (complaint U lo hi s)]\<rparr>"
      from False Cons.prems step have "validated U lo hi (pending ?w) = v # vs" by simp
      moreover have "unicode_db ?w = U" using u by simp
      ultimately obtain w' where
        "get_valid_number p lo hi ?w = (Inr v, w')" "validated U lo hi (pending w') = vs"
        "\<forall>q. Asked q \<in> set (trace w') \<longrightarrow> Asked q \<in> set (trace ?w) \<or> q = p"
        using Cons.hyps(1) [of ?w] by auto
      moreover from False u have "\<not> accepted (unicode_db w) lo hi s" by simp
      note get_valid_number_skip [OF this step, of p]
      ultimately show ?thesis using u by auto
    qed
  qed
qed

lemma validated_nil:
  "unicode_db w = U \<Longrightarrow> validated U lo hi (pending w) = [] \<Longrightarrow>
   \<exists>e w'. get_valid_number p lo hi w = (Inl e, w')"
proof (induction "pending w" arbitrary: w)
  case Nil
  then show ?case by (simp add: get_valid_number_eof [of w])
next
  case (Cons x xs)
  from Cons.hyps(2) have pw: "pending w = x # xs" by simp
  note u = Cons.prems(1)
  show ?case
  proof (cases x)
    case CtrlC
    with pw show ?thesis by (simp add: get_valid_number_ctrlc [of w xs])
  next
    case (Line s)
    with pw have step: "pending w = Line s # xs" by simp
    from Cons.prems step have False: "\<not> accepted U lo hi s" by (auto split: if_splits)
    let ?w = "w\<lparr>pending := xs, trace := trace w @ [Asked p, Said (complaint U lo hi s)]\<rparr>"
    from False Cons.prems step have "validated U lo hi (pending ?w) = []" by simp
    moreover have "unicode_db ?w = U" using u by simp
    ultimately have "\<exists>e w'. get_valid_number p lo hi ?w = (Inl e, w')"
      using Cons.hyps(1) [of ?w] by auto
    moreover from False u have "\<not> accepted (unicode_db w) lo hi s" by simp
    note get_valid_number_skip [OF this step, of p]
    ultimately show ?thesis using u by auto
  qed
qed

lemma play_loop_misses:
  assumes "unicode_db w = U" and "a < N"
    and "nat (N - a) \<le> length (validated U lo hi (pending w))"
    and "secret \<notin> set (take (nat (N - a)) (validated U lo hi (pending w)))"
  shows "\<exists>w'. play_loop secret lo hi (Some N) a w = (Inr (N, False), w') \<and>
              last (trace w') = Said (GameOver N secret) \<and>
              validated U lo hi (pending w') = drop (nat (N - a)) (validated U lo hi (pending w)) \<and>
              (\<forall>k. Asked (AttemptPrompt k) \<in> set (trace w') \<longrightarrow>
                   Asked (AttemptPrompt k) \<in> set (trace w) \<or> (a < k \<and> k \<le> N))"
  using assms
proof (induction "nat (N - a)" arbitrary: a w)
  case 0
  then show ?case by simp
next
  case (Suc n)
  note u = Suc.prems(1)
  from Suc.hyps(2) have n: "nat (N - a) = Suc n" by simp
  with Suc.prems(3) obtain v vs where vs: "validated U lo hi (pending w) = v # vs"
    by (cases "validated U lo hi (pending w)") auto
  with Suc.prems(4) n have miss: "v \<noteq> secret" and rest: "secret \<notin> set (take n vs)"
    by auto
  from validated_cons [OF u vs, of "AttemptPrompt (a + 1)"] obtain w1 where
    g: "get_valid_number (AttemptPrompt (a + 1)) lo hi w = (Inr v, w1)"
    and v1: "validated U lo hi (pending w1) = vs"
    and t1: "\<forall>q. Asked q \<in> set (trace w1) \<longrightarrow> Asked q \<in> set (trace w) \<or> q = AttemptPrompt (a + 1)"
    by blast
  let ?w2 = "output_fn (if v < secret then Higher else Lower) w1"
  have u2: "unicode_db ?w2 = U" using unicode_db_get_valid_number [OF g] u by simp
  show ?case
  proof (cases "N \<le> a + 1")
    case True
    with Suc.prems(2) have N: "N = a + 1" by simp
    with n have "n = 0" by simp
    with N miss vs v1 t1 n show ?thesis
      by (auto simp: play_loop_step [OF g] output_fn_def)
  next
    case False
    then have step: "play_loop secret lo hi (Some N) a w = play_loop secret lo hi (Some N) (a + 1) ?w2"
      using miss by (simp add: play_loop_step [OF g])
    from n have n': "n = nat (N - (a + 1))" by simp
    from False have lt: "a + 1 < N" by simp
    from Suc.prems(3) vs n have len: "nat (N - (a + 1)) \<le> length (validated U lo hi (pending ?w2))"
      by (simp add: v1)
    from rest n' have r2: "secret \<notin> set (take (nat (N - (a + 1))) (validated U lo hi (pending ?w2)))"
      by (simp add: v1)
    from Suc.hyps(1) [OF n' u2 lt len r2] obtain w' where
      w': "play_loop secret lo hi (Some N) (a + 1) ?w2 = (Inr (N, False), w')"
          "last (trace w') = Said (GameOver N secret)"
          "validated U lo hi (pending w') = drop (nat (N - (a + 1))) (validated U lo hi (pending ?w2))"
          "\<forall>k. Asked (AttemptPrompt k) \<in> set (trace w') \<longrightarrow>
               Asked (AttemptPrompt k) \<in> set (trace ?w2) \<or> (a + 1 < k \<and> k \<le> N)"
      by blast
    have asked: "Asked (AttemptPrompt k) \<in> set (trace w) \<or> (a < k \<and> k \<le> N)"
      if "Asked (AttemptPrompt k) \<in> set (trace w')" for k
    proof -
      from w'(4) that have "Asked (AttemptPrompt k) \<in> set (trace ?w2) \<or> (a + 1 < k \<and> k \<le> N)"
        by blast
      then show ?thesis
      proof
        assume "Asked (AttemptPrompt k) \<in> set (trace ?w2)"
        then have "Asked (AttemptPrompt k) \<in> set (trace w1)" by (simp add: output_fn_def)
        with t1 lt show ?thesis by auto
      next
        assume "a + 1 < k \<and> k \<le> N"
        then show ?thesis by simp
      qed
    qed
    from w'(3) vs n n' have "validated U lo hi (pending w') = drop (nat (N - a)) (validated U lo hi (pending w))"
      by (simp add: v1)
    with step w'(1,2) asked show ?thesis by auto
  qed
qed

lemma play_loop_unlimited_return:
  "play_loop s lo hi None a w = (Inr (n, won), w') \<Longrightarrow>
   won \<and> last (trace w') = Said (Correct s n)"
proof (induction "length (pending w)" arbitrary: w a rule: less_induct)
  case less
  obtain g w1 where g: "get_valid_number (AttemptPrompt (a + 1)) lo hi w = (g, w1)"
    by (cases "get_valid_number (AttemptPrompt (a + 1)) lo hi w")
  show ?case
  proof (cases g)
    case (Inl e)
    with less.prems show ?thesis by (simp add: play_loop_step [OF g])
  next
    case (Inr guess)
    with g have lt: "length (pending w1) < length (pending w)"
      by (auto dest: get_valid_number_shrinks)
    have rec: "play_loop s lo hi None (a + 1) (output_fn x w1) = (Inr (n, won), w') \<Longrightarrow>
               won \<and> last (trace w') = Said (Correct s n)" for x
      using less.hyps [of "output_fn x w1" "a + 1"] lt by simp
    from less.prems Inr show ?thesis
      by (auto simp: play_loop_step [OF g] split: if_splits dest: rec)
  qed
qed

lemma play_loop_unlimited_no_win:
  "unicode_db w = U \<Longrightarrow> s \<notin> set (validated U lo hi (pending w)) \<Longrightarrow>
   \<exists>e w'. play_loop s lo hi None a w = (Inl e, w')"
proof (induction "length (pending w)" arbitrary: w a rule: less_induct)
  case less
  note u = less.prems(1)
  show ?case
  proof (cases "validated U lo hi (pending w)")
    case Nil
    from validated_nil [OF u Nil, of "AttemptPrompt (a + 1)"] obtain e w1 where
      "get_valid_number (AttemptPrompt (a + 1)) lo hi w = (Inl e, w1)" by blast
    then show ?thesis by (simp add: play_loop_step)
  next
    case (Cons v vs)
    from validated_cons [OF u Cons, of "AttemptPrompt (a + 1)"] obtain w1 where
      g: "get_valid_number (AttemptPrompt (a + 1)) lo hi w = (Inr v, w1)"
      and v1: "validated U lo hi (pending w1) = vs" by blast
    from g have lt: "length (pending w1) < length (pending w)"
      by (rule get_valid_number_shrinks)
    let ?w2 = "output_fn (if v < s then Higher else Lower) w1"
    have u2: "unicode_db ?w2 = U" using unicode_db_get_valid_number [OF g] u by simp
    from less.prems Cons v1 have "s \<notin> set (validated U lo hi (pending ?w2))" "v \<noteq> s"
      by auto
    with less.hyps [of ?w2 "a + 1"] lt u2 show ?thesis
      by (simp add: play_loop_step [OF g])
  qed
qed

lemma trace_draw_secret: "draw_secret lo hi rng w = (x, w') \<Longrightarrow> trace w' = trace w"
  by (auto simp: draw_secret_def new_random_def randint_def split: option.splits if_splits)


lemma pending_demo_world: "pending (demo_world ins f) = ins"
  by (simp add: demo_world_def)

lemma draw_secret_demo:
  "draw_secret 1 9 (Some 0) (demo_world ins f) =
     (Inr 5, (demo_world ins f)\<lparr>rngs := (rngs (demo_world ins f))(0 := sconst 4)\<rparr>)"
  by (simp add: draw_secret_def randint_def demo_world_def)

lemma unicode_db_demo_world: "unicode_db (demo_world ins f) = demo_unicode"
  by (simp add: demo_world_def)

lemma validated_demo:
  "validated demo_unicode 1 9
     [Line (ascii ''3''), Line (ascii ''x''), Line (ascii ''7''), Line (ascii ''5'')] = [3, 7, 5]"
proof -
  have "py_int demo_unicode (ascii ''3'') = Some 3" "py_int demo_unicode (ascii ''x'') = None"
    "py_int demo_unicode (ascii ''7'') = Some 7" "py_int demo_unicode (ascii ''5'') = Some 5"
    by (simp_all add: py_int_eval)
  then show ?thesis by (simp add: accepted_def)
qed

lemma draw_secret_single:
  "draw_secret lo lo rng w = (r, w1) \<Longrightarrow> r = Inr lo"
  by (auto simp: draw_secret_def randint_def new_random_def split: option.splits)

lemma draw_secret_in_range:
  "draw_secret lo hi rng w = (Inr s, w1) \<Longrightarrow> lo \<le> s \<and> s \<le> hi"
proof -
  assume d: "draw_secret lo hi rng w = (Inr s, w1)"
  then have le: "lo \<le> hi" by (auto simp: draw_secret_def randint_def split: prod.splits if_splits)
  from d obtain x :: nat where s: "s = lo + int (x mod nat (hi - lo + 1))"
    by (auto simp: draw_secret_def randint_def split: prod.splits if_splits)
  from le have "0 < nat (hi - lo + 1)" by simp
  then have "x mod nat (hi - lo + 1) < nat (hi - lo + 1)" by (rule mod_less_divisor)
  with s le show ?thesis by linarith
qed

lemma accepted_iff:
  "accepted U lo hi s \<longleftrightarrow> (\<exists>v. int_literal (to_ascii U s) v \<and> lo \<le> v \<and> v \<le> hi)"
  by (auto simp: accepted_def py_int_iff [symmetric] split: option.splits)

lemma complaint_iff:
  "complaint U lo hi s =
     (if \<exists>v. int_literal (to_ascii U s) v then EnterBetween lo hi else InvalidInput)"
  by (auto simp: complaint_def py_int_iff [symmetric] split: option.splits)

section \<open>The validated input reader\<close>

text \<open>
  C3. Whenever \<open>get_valid_number\<close> returns, its result \<open>v\<close> lies between the bounds and
  is the value of the first line that converts to an integer in range: every line
  before it was not accepted and was answered by its message and another round of the
  loop, and nothing after it was read. A line that is an integer literal with a value
  in range is returned at once; one with a value out of range is answered by the range
  message and the loop goes on; a line that is no integer literal is answered by the
  invalid-input message and the loop goes on. Lines that are not accepted are never
  returned, and a session counts none of them as an attempt: its outcome is the outcome
  without them. What converts is exactly what the grammar of integer literals admits,
  on the line as \<open>int\<close> rewrites it, and an ASCII line is not rewritten.
\<close>

theorem get_valid_number_validates:
  "(get_valid_number p lo hi w = (Inr v, w') \<longrightarrow>
      lo \<le> v \<and> v \<le> hi \<and>
      (\<exists>bad s rest.
         pending w = map Line bad @ Line s # rest \<and>
         (\<forall>t \<in> set bad. \<not> accepted (unicode_db w) lo hi t) \<and>
         int_literal (to_ascii (unicode_db w) s) v \<and>
         w' = w\<lparr>pending := rest,
                trace := trace w @
                  concat (map (\<lambda>t. [Asked p, Said (complaint (unicode_db w) lo hi t)]) bad)
                  @ [Asked p]\<rparr>)) \<and>
   (int_literal (to_ascii (unicode_db w) s) n \<and> lo \<le> n \<and> n \<le> hi \<and>
    pending w = Line s # rest \<longrightarrow>
      get_valid_number p lo hi w =
        (Inr n, w\<lparr>pending := rest, trace := trace w @ [Asked p]\<rparr>)) \<and>
   (int_literal (to_ascii (unicode_db w) s) n \<and> (n < lo \<or> hi < n) \<and>
    pending w = Line s # rest \<longrightarrow>
      get_valid_number p lo hi w =
        get_valid_number p lo hi
          (w\<lparr>pending := rest, trace := trace w @ [Asked p, Said (EnterBetween lo hi)]\<rparr>)) \<and>
   ((\<forall>i. \<not> int_literal (to_ascii (unicode_db w) s) i) \<and> pending w = Line s # rest \<longrightarrow>
      get_valid_number p lo hi w =
        get_valid_number p lo hi
          (w\<lparr>pending := rest, trace := trace w @ [Asked p, Said InvalidInput]\<rparr>)) \<and>
   ((\<forall>t \<in> set junk. \<not> accepted (unicode_db w) lo hi t) \<and> pending w = map Line junk @ rest \<longrightarrow>
      get_valid_number p lo hi w =
        get_valid_number p lo hi
          (w\<lparr>pending := rest,
             trace := trace w @
               concat (map (\<lambda>t. [Asked p, Said (complaint (unicode_db w) lo hi t)]) junk)\<rparr>) \<and>
      fst (play_loop secret lo hi m a w) = fst (play_loop secret lo hi m a (w\<lparr>pending := rest\<rparr>))) \<and>
   (accepted U lo hi s \<longleftrightarrow> (\<exists>i. int_literal (to_ascii U s) i \<and> lo \<le> i \<and> i \<le> hi)) \<and>
   complaint U lo hi s =
     (if \<exists>i. int_literal (to_ascii U s) i then EnterBetween lo hi else InvalidInput) \<and>
   (py_int U s = Some n \<longleftrightarrow> int_literal (to_ascii U s) n) \<and>
   (list_all (\<lambda>c. c < 128) s \<longrightarrow> to_ascii U s = s)"
proof -
  let ?U = "unicode_db w"
  have returned: "get_valid_number p lo hi w = (Inr v, w') \<longrightarrow>
      lo \<le> v \<and> v \<le> hi \<and>
      (\<exists>bad s rest.
         pending w = map Line bad @ Line s # rest \<and>
         (\<forall>t \<in> set bad. \<not> accepted ?U lo hi t) \<and>
         int_literal (to_ascii ?U s) v \<and>
         w' = w\<lparr>pending := rest,
                trace := trace w @
                  concat (map (\<lambda>t. [Asked p, Said (complaint ?U lo hi t)]) bad)
                  @ [Asked p]\<rparr>)"
    using get_valid_number_returned [of p lo hi w v w'] by (simp add: py_int_iff)
  have hit: "int_literal (to_ascii ?U s) n \<and> lo \<le> n \<and> n \<le> hi \<and>
    pending w = Line s # rest \<longrightarrow>
      get_valid_number p lo hi w =
        (Inr n, w\<lparr>pending := rest, trace := trace w @ [Asked p]\<rparr>)"
    by (auto simp: py_int_iff [symmetric] get_valid_number_line)
  have range: "int_literal (to_ascii ?U s) n \<and> (n < lo \<or> hi < n) \<and>
    pending w = Line s # rest \<longrightarrow>
      get_valid_number p lo hi w =
        get_valid_number p lo hi
          (w\<lparr>pending := rest, trace := trace w @ [Asked p, Said (EnterBetween lo hi)]\<rparr>)"
    by (auto simp: py_int_iff [symmetric] get_valid_number_line)
  have invalid: "(\<forall>i. \<not> int_literal (to_ascii ?U s) i) \<and> pending w = Line s # rest \<longrightarrow>
      get_valid_number p lo hi w =
        get_valid_number p lo hi
          (w\<lparr>pending := rest, trace := trace w @ [Asked p, Said InvalidInput]\<rparr>)"
  proof (intro impI, elim conjE)
    assume "\<forall>i. \<not> int_literal (to_ascii ?U s) i" and step: "pending w = Line s # rest"
    then have "py_int ?U s = None" by (cases "py_int ?U s") (auto simp: py_int_iff)
    then show "get_valid_number p lo hi w =
        get_valid_number p lo hi
          (w\<lparr>pending := rest, trace := trace w @ [Asked p, Said InvalidInput]\<rparr>)"
      by (simp add: get_valid_number_line [OF step])
  qed
  have skipped: "(\<forall>t \<in> set junk. \<not> accepted ?U lo hi t) \<and> pending w = map Line junk @ rest \<longrightarrow>
      get_valid_number p lo hi w =
        get_valid_number p lo hi
          (w\<lparr>pending := rest,
             trace := trace w @
               concat (map (\<lambda>t. [Asked p, Said (complaint ?U lo hi t)]) junk)\<rparr>) \<and>
      fst (play_loop secret lo hi m a w) = fst (play_loop secret lo hi m a (w\<lparr>pending := rest\<rparr>))"
  proof (intro impI)
    assume h: "(\<forall>t \<in> set junk. \<not> accepted ?U lo hi t) \<and> pending w = map Line junk @ rest"
    let ?q = "AttemptPrompt (a + 1)"
    let ?v = "w\<lparr>pending := rest,
               trace := trace w @ concat (map (\<lambda>t. [Asked ?q, Said (complaint ?U lo hi t)]) junk)\<rparr>"
    from h have skip: "get_valid_number p lo hi w =
        get_valid_number p lo hi
          (w\<lparr>pending := rest,
             trace := trace w @
               concat (map (\<lambda>t. [Asked p, Said (complaint ?U lo hi t)]) junk)\<rparr>)"
      by (intro get_valid_number_skips) simp_all
    from h have eq: "get_valid_number ?q lo hi w = get_valid_number ?q lo hi ?v"
      by (intro get_valid_number_skips) simp_all
    obtain g w1 where g: "get_valid_number ?q lo hi ?v = (g, w1)"
      by (cases "get_valid_number ?q lo hi ?v")
    with eq have g': "get_valid_number ?q lo hi w = (g, w1)" by simp
    have "play_loop secret lo hi m a w = play_loop secret lo hi m a ?v"
      by (simp add: play_loop_step [OF g] play_loop_step [OF g'])
    moreover have "fst (play_loop secret lo hi m a ?v) =
                   fst (play_loop secret lo hi m a (w\<lparr>pending := rest\<rparr>))"
      using play_loop_inputs [of ?v "w\<lparr>pending := rest\<rparr>"] by simp
    ultimately have "fst (play_loop secret lo hi m a w) =
                     fst (play_loop secret lo hi m a (w\<lparr>pending := rest\<rparr>))"
      by simp
    with skip show "get_valid_number p lo hi w =
        get_valid_number p lo hi
          (w\<lparr>pending := rest,
             trace := trace w @
               concat (map (\<lambda>t. [Asked p, Said (complaint ?U lo hi t)]) junk)\<rparr>) \<and>
      fst (play_loop secret lo hi m a w) = fst (play_loop secret lo hi m a (w\<lparr>pending := rest\<rparr>))"
      by simp
  qed
  note grammar = accepted_iff [of U lo hi s] complaint_iff [of U lo hi s] py_int_iff [of U s n]
  have plain: "list_all (\<lambda>c. c < 128) s \<longrightarrow> to_ascii U s = s"
    by (simp add: to_ascii_ascii)
  from returned hit range invalid skipped grammar plain show ?thesis by (intro conjI)
qed

lemma py_int_demo:
  "py_int demo_unicode (ascii ''x'') = None"
  "py_int demo_unicode (ascii ''12'') = Some 12"
  "py_int demo_unicode [28, 53] = None"
  "py_int demo_unicode [1639] = Some 7"
  "py_int demo_unicode (ascii ''0'') = Some 0"
  "py_int demo_unicode (ascii ''3'') = Some 3"
  "py_int demo_unicode (ascii ''5'') = Some 5"
  "py_int demo_unicode (ascii ''7'') = Some 7"
  by (simp_all add: py_int_eval demo_unicode_def py_isspace_def py_decimal_def)

theorem get_valid_number_validates_witness:
  "(\<forall>i. \<not> int_literal (to_ascii demo_unicode (ascii ''x'')) i) \<and>
   int_literal (to_ascii demo_unicode (ascii ''12'')) 12 \<and>
   (\<forall>i. \<not> int_literal (to_ascii demo_unicode [28, 53]) i) \<and>
   int_literal (to_ascii demo_unicode [1639]) 7 \<and>
   get_valid_number (AttemptPrompt 1) 1 10
     (demo_world [Line (ascii ''x''), Line (ascii ''12''), Line [28, 53], Line [1639]] Missing) =
     (Inr 7, (demo_world [] Missing)
        \<lparr>trace := [Asked (AttemptPrompt 1), Said InvalidInput,
                    Asked (AttemptPrompt 1), Said (EnterBetween 1 10),
                    Asked (AttemptPrompt 1), Said InvalidInput,
                    Asked (AttemptPrompt 1)]\<rparr>) \<and>
   fst (play_loop 7 1 10 None 0
     (demo_world [Line (ascii ''x''), Line (ascii ''12''), Line [28, 53], Line [1639]] Missing)) =
     Inr (1, True)"
proof -
  let ?U = "demo_unicode"
  let ?junk = "[ascii ''x'', ascii ''12'', [28, 53]]"
  let ?w = "demo_world [Line (ascii ''x''), Line (ascii ''12''), Line [28, 53], Line [1639]] Missing"
  have lit: "\<forall>i. \<not> int_literal (to_ascii ?U (ascii ''x'')) i"
    "int_literal (to_ascii ?U (ascii ''12'')) 12"
    "\<forall>i. \<not> int_literal (to_ascii ?U [28, 53]) i"
    "int_literal (to_ascii ?U [1639]) 7"
    using py_int_demo by (simp_all add: py_int_iff [symmetric])
  have u: "unicode_db ?w = ?U" by (simp add: demo_world_def)
  have acc: "\<forall>t \<in> set ?junk. \<not> accepted ?U 1 10 t"
    by (simp add: accepted_def py_int_demo)
  have c: "complaint ?U 1 10 (ascii ''x'') = InvalidInput"
    "complaint ?U 1 10 (ascii ''12'') = EnterBetween 1 10"
    "complaint ?U 1 10 [28, 53] = InvalidInput"
    by (simp_all add: complaint_def py_int_demo)
  have pw: "pending ?w = map Line ?junk @ [Line [1639]]" by (simp add: demo_world_def)
  note t = get_valid_number_validates
    [where w = ?w and lo = 1 and hi = 10 and junk = ?junk and rest = "[Line [1639]]"]
  let ?w1 = "?w\<lparr>pending := [Line [1639]],
               trace := [Asked (AttemptPrompt 1), Said InvalidInput,
                         Asked (AttemptPrompt 1), Said (EnterBetween 1 10),
                         Asked (AttemptPrompt 1), Said InvalidInput]\<rparr>"
  have skip: "get_valid_number (AttemptPrompt 1) 1 10 ?w =
              get_valid_number (AttemptPrompt 1) 1 10 ?w1"
    using t [where p = "AttemptPrompt 1"] acc pw c u by (simp add: demo_world_def)
  have play: "fst (play_loop 7 1 10 None 0 ?w) =
              fst (play_loop 7 1 10 None 0 (?w\<lparr>pending := [Line [1639]]\<rparr>))"
    using t [where secret = 7 and m = None and a = 0] acc pw u by simp
  have hit: "pending v = [Line [1639]] \<Longrightarrow> unicode_db v = ?U \<Longrightarrow>
     get_valid_number q 1 10 v = (Inr 7, v\<lparr>pending := [], trace := trace v @ [Asked q]\<rparr>)" for v q
    using get_valid_number_validates
      [where w = v and p = q and lo = 1 and hi = 10 and s = "[1639]" and n = 7 and rest = "[]"]
      lit(4)
    by simp
  have "get_valid_number (AttemptPrompt 1) 1 10 ?w1 =
     (Inr 7, ?w1\<lparr>pending := [], trace := trace ?w1 @ [Asked (AttemptPrompt 1)]\<rparr>)"
    by (rule hit) (simp_all add: demo_world_def)
  with skip have reader: "get_valid_number (AttemptPrompt 1) 1 10 ?w =
     (Inr 7, (demo_world [] Missing)
        \<lparr>trace := [Asked (AttemptPrompt 1), Said InvalidInput,
                    Asked (AttemptPrompt 1), Said (EnterBetween 1 10),
                    Asked (AttemptPrompt 1), Said InvalidInput,
                    Asked (AttemptPrompt 1)]\<rparr>)"
    by (simp add: demo_world_def)
  have "get_valid_number (AttemptPrompt (0 + 1)) 1 10 (?w\<lparr>pending := [Line [1639]]\<rparr>) =
     (Inr 7, ?w\<lparr>pending := [Line [1639]]\<rparr>
        \<lparr>pending := [],
         trace := trace (?w\<lparr>pending := [Line [1639]]\<rparr>) @ [Asked (AttemptPrompt (0 + 1))]\<rparr>)"
    by (rule hit) (simp_all add: demo_world_def)
  then have "fst (play_loop 7 1 10 None 0 (?w\<lparr>pending := [Line [1639]]\<rparr>)) = Inr (1, True)"
    by (simp add: play_loop_step)
  with play have session: "fst (play_loop 7 1 10 None 0 ?w) = Inr (1, True)" by simp
  from lit reader session show ?thesis by (intro conjI)
qed

section \<open>The score store never raises\<close>

text \<open>
  C7. \<open>safe_load_scores\<close> never raises: for every path and every world it returns a
  record. Whenever the body of its \<open>try\<close> raises, the record is empty; so it is for a
  missing file, a file that cannot be opened, content that is not JSON, a JSON value that
  is not an object, and an object with a value that \<open>int\<close> rejects.
\<close>

theorem safe_load_scores_total:
  "(\<exists>sc. safe_load_scores p w = Inr sc) \<and>
   (load_scores_body p w = Inl e \<longrightarrow> safe_load_scores p w = Inr []) \<and>
   (files w p = Missing \<longrightarrow> safe_load_scores p w = Inr []) \<and>
   (files w p = Denied \<longrightarrow> safe_load_scores p w = Inr []) \<and>
   (files w p = Garbage \<longrightarrow> safe_load_scores p w = Inr []) \<and>
   (files w p = Json data \<and> (\<forall>kvs. data \<noteq> JObject kvs) \<longrightarrow> safe_load_scores p w = Inr []) \<and>
   (files w p = Json (JObject kvs) \<and> (k, v) \<in> set kvs \<and> int_of_json (unicode_db w) v = Inl e' \<longrightarrow>
      safe_load_scores p w = Inr [])"
proof -
  note caught = safe_load_scores_caught [of p w]
  have total: "\<exists>sc. safe_load_scores p w = Inr sc"
    using caught by (cases "load_scores_body p w") (auto simp: safe_load_scores_def)
  have missing: "files w p = Missing \<longrightarrow> safe_load_scores p w = Inr []"
    by (simp add: safe_load_scores_def load_scores_body_def)
  have denied: "files w p = Denied \<longrightarrow> safe_load_scores p w = Inr []"
    by (auto intro: caught simp: load_scores_body_def)
  have garbage: "files w p = Garbage \<longrightarrow> safe_load_scores p w = Inr []"
    by (auto intro: caught simp: load_scores_body_def)
  have shape: "files w p = Json data \<and> (\<forall>kvs. data \<noteq> JObject kvs) \<longrightarrow>
               safe_load_scores p w = Inr []"
    by (cases data) (auto intro: caught simp: load_scores_body_def)
  have conv: "files w p = Json (JObject kvs) \<and> (k, v) \<in> set kvs \<and> int_of_json (unicode_db w) v = Inl e' \<longrightarrow>
              safe_load_scores p w = Inr []"
    using safe_load_scores_bad_value by blast
  from total caught missing denied garbage shape conv show ?thesis by blast
qed

theorem safe_load_scores_total_witness:
  "files (demo_world [] Garbage) ''scores.json'' = Garbage \<and>
   safe_load_scores ''scores.json'' (demo_world [] Garbage) = Inr []"
  using safe_load_scores_total [of "''scores.json''" "demo_world [] Garbage"]
  by (simp add: demo_world_def)

section \<open>Saving and loading the scores\<close>

text \<open>
  C8. For every record (a dictionary: its keys are distinct) and every writable path,
  \<open>safe_save_scores\<close> followed by \<open>safe_load_scores\<close> returns the record. After the
  save the file holds the dumped record and nothing of its previous content, and
  every load of that unmodified file returns the same record.
\<close>

theorem save_then_load:
  assumes "writable w p" and "distinct (map fst sc)"
  shows "\<exists>w'. safe_save_scores sc p w = (Inr (), w') \<and>
              safe_load_scores p w' = Inr sc \<and>
              files w' p = Json (json_dump sc) \<and>
              (\<forall>w''. files w'' p = files w' p \<longrightarrow> safe_load_scores p w'' = Inr sc)"
proof -
  let ?w = "w\<lparr>files := (files w)(p := Json (json_dump sc))\<rparr>"
  have saved: "safe_save_scores sc p w = (Inr (), ?w)"
    using assms(1) by (simp add: safe_save_scores_def save_scores_body_def writable_def)
  have dumped: "safe_load_scores p v = Inr sc" if "files v p = Json (json_dump sc)" for v
    using that
    by (simp add: safe_load_scores_def load_scores_body_def json_dump_def
                  convert_items_dump [OF assms(2), of "[]"])
  have loaded: "safe_load_scores p ?w = Inr sc" by (rule dumped) simp
  have again: "safe_load_scores p w'' = Inr sc" if "files w'' p = files ?w p" for w''
    by (rule dumped) (simp add: that)
  from saved loaded again show ?thesis by (intro exI [of _ ?w]) simp
qed

theorem save_then_load_witness:
  "writable (demo_world [] Garbage) ''s.json'' \<and>
   distinct (map fst [(ascii ''1'', 3), (ascii ''2'', 5 :: int)]) \<and>
   (\<exists>w'. safe_save_scores [(ascii ''1'', 3), (ascii ''2'', 5)] ''s.json'' (demo_world [] Garbage)
           = (Inr (), w') \<and>
         safe_load_scores ''s.json'' w' = Inr [(ascii ''1'', 3), (ascii ''2'', 5)])"
proof -
  have h1: "writable (demo_world [] Garbage) ''s.json''"
    by (simp add: writable_def demo_world_def)
  have h2: "distinct (map fst [(ascii ''1'', 3), (ascii ''2'', 5 :: int)])"
    by (simp add: ascii_def)
  from save_then_load [OF h1 h2] h1 h2 show ?thesis by blast
qed

section \<open>Loading coerces the stored values\<close>

lemma trunc_float_spec:
  "(0 \<le> e \<longrightarrow> trunc_float m e = m * 2 ^ nat e) \<and>
   (e < 0 \<and> 0 \<le> m \<longrightarrow>
      trunc_float m e * 2 ^ nat (- e) \<le> m \<and> m < (trunc_float m e + 1) * 2 ^ nat (- e)) \<and>
   (e < 0 \<and> m < 0 \<longrightarrow>
      (trunc_float m e - 1) * 2 ^ nat (- e) < m \<and> m \<le> trunc_float m e * 2 ^ nat (- e))"
proof -
  define d :: int where "d = 2 ^ nat (- e)"
  have d: "0 < d" by (simp add: d_def)
  have below: "a div d * d \<le> a" and above: "a < (a div d + 1) * d" for a :: int
  proof -
    have eq: "a div d * d = a - a mod d" by (simp add: minus_mod_eq_div_mult)
    have bounds: "0 \<le> a mod d" "a mod d < d" using d by simp_all
    from eq bounds show "a div d * d \<le> a" by linarith
    have "(a div d + 1) * d = a - a mod d + d" using eq by (simp add: algebra_simps)
    with bounds show "a < (a div d + 1) * d" by linarith
  qed
  have pos: "e < 0 \<and> 0 \<le> m \<longrightarrow>
      trunc_float m e * d \<le> m \<and> m < (trunc_float m e + 1) * d"
    using below [of m] above [of m] by (simp add: trunc_float_def d_def)
  have neg: "e < 0 \<and> m < 0 \<longrightarrow>
      (trunc_float m e - 1) * d < m \<and> m \<le> trunc_float m e * d"
  proof (intro impI, elim conjE)
    assume "e < 0" "m < 0"
    then have t: "trunc_float m e = - ((- m) div d)" by (simp add: trunc_float_def d_def)
    from below [of "- m"] above [of "- m"]
    show "(trunc_float m e - 1) * d < m \<and> m \<le> trunc_float m e * d"
      unfolding t by (simp add: algebra_simps)
  qed
  from pos neg show ?thesis by (simp add: trunc_float_def d_def)
qed

lemma int_of_json_string:
  "int_of_json U (JString s) = Inr i \<longleftrightarrow> int_literal (to_ascii U s) i"
  by (auto simp: py_int_iff [symmetric] split: option.splits)

lemma int_of_json_fails:
  "(\<exists>x. int_of_json U v = Inl x) \<longleftrightarrow>
     (v = JNull \<or> (\<exists>xs. v = JArray xs) \<or> (\<exists>kvs. v = JObject kvs) \<or>
      v = JFloat PosInf \<or> v = JFloat NegInf \<or> v = JFloat NaN \<or>
      (\<exists>t. v = JString t \<and> (\<forall>i. \<not> int_literal (to_ascii U t) i)))"
proof (cases "(U, v)" rule: int_of_json.cases)
  case (7 U' s)
  then show ?thesis
    by (cases "py_int U s") (auto simp: py_int_iff [symmetric])
qed auto

text \<open>
  C10. \<open>safe_load_scores\<close> converts every value of the stored object with \<open>int\<close>: when
  every value converts, the record of the converted values is returned; the empty record
  is returned only when some value fails to convert. An integer converts to itself, a
  boolean to 1 or 0, a string to the value of the integer literal it is (after the
  rewriting of \<open>int\<close>), a finite float \<open>m * 2 ^ e\<close> to its integer part, cut off towards
  zero. The values that fail are \<open>null\<close>, arrays, objects, the infinities, NaN and the
  strings that are no integer literal. The witness loads
  \<open>{"a": "3", "b": 3.7, "c": -3.7, "d": true}\<close> with a fifth entry whose value is the
  Arabic-Indic digit three, and \<open>{"1": "\u001c3"}\<close>, which falls back to the empty
  record; the double nearest to 3.7 is \<open>8331659310635418 * 2 ^ -51\<close>.
\<close>

theorem safe_load_scores_coerces:
  "(files w p = Json (JObject kvs) \<and> distinct (map fst kvs) \<longrightarrow>
      safe_load_scores p w =
        (if \<forall>(k, v) \<in> set kvs. \<exists>i. int_of_json (unicode_db w) v = Inr i
         then Inr (map (\<lambda>(k, v). (k, projr (int_of_json (unicode_db w) v))) kvs)
         else Inr [])) \<and>
   int_of_json U (JInt i) = Inr i \<and>
   int_of_json U (JBool b) = Inr (if b then 1 else 0) \<and>
   (int_of_json U (JString s) = Inr n \<longleftrightarrow> int_literal (to_ascii U s) n) \<and>
   (\<exists>t. int_of_json U (JFloat (Finite m e)) = Inr t \<and>
        (0 \<le> e \<longrightarrow> t = m * 2 ^ nat e) \<and>
        (e < 0 \<and> 0 \<le> m \<longrightarrow> t * 2 ^ nat (- e) \<le> m \<and> m < (t + 1) * 2 ^ nat (- e)) \<and>
        (e < 0 \<and> m < 0 \<longrightarrow> (t - 1) * 2 ^ nat (- e) < m \<and> m \<le> t * 2 ^ nat (- e))) \<and>
   ((\<exists>x. int_of_json U v = Inl x) \<longleftrightarrow>
      (v = JNull \<or> (\<exists>xs. v = JArray xs) \<or> (\<exists>items. v = JObject items) \<or>
       v = JFloat PosInf \<or> v = JFloat NegInf \<or> v = JFloat NaN \<or>
       (\<exists>t. v = JString t \<and> (\<forall>i. \<not> int_literal (to_ascii U t) i))))"
proof -
  have load: "files w p = Json (JObject kvs) \<and> distinct (map fst kvs) \<longrightarrow>
      safe_load_scores p w =
        (if \<forall>(k, v) \<in> set kvs. \<exists>i. int_of_json (unicode_db w) v = Inr i
         then Inr (map (\<lambda>(k, v). (k, projr (int_of_json (unicode_db w) v))) kvs)
         else Inr [])"
  proof (intro impI, elim conjE)
    assume f: "files w p = Json (JObject kvs)" and d: "distinct (map fst kvs)"
    show "safe_load_scores p w =
        (if \<forall>(k, v) \<in> set kvs. \<exists>i. int_of_json (unicode_db w) v = Inr i
         then Inr (map (\<lambda>(k, v). (k, projr (int_of_json (unicode_db w) v))) kvs)
         else Inr [])"
    proof (cases "\<forall>(k, v) \<in> set kvs. \<exists>i. int_of_json (unicode_db w) v = Inr i")
      case True
      then have "convert_items (unicode_db w) kvs [] =
          Inr ([] @ map (\<lambda>(k, v). (k, projr (int_of_json (unicode_db w) v))) kvs)"
        using d by (intro convert_items_all) auto
      with True f show ?thesis
        by (simp add: safe_load_scores_def load_scores_body_def)
    next
      case False
      then obtain k v where kv: "(k, v) \<in> set kvs" "\<nexists>i. int_of_json (unicode_db w) v = Inr i"
        by auto
      then obtain x where "int_of_json (unicode_db w) v = Inl x"
        by (cases "int_of_json (unicode_db w) v") auto
      with f kv(1) have "safe_load_scores p w = Inr []"
        by (rule safe_load_scores_bad_value)
      then show ?thesis unfolding if_not_P [OF False] .
    qed
  qed
  have float: "\<exists>t. int_of_json U (JFloat (Finite m e)) = Inr t \<and>
        (0 \<le> e \<longrightarrow> t = m * 2 ^ nat e) \<and>
        (e < 0 \<and> 0 \<le> m \<longrightarrow> t * 2 ^ nat (- e) \<le> m \<and> m < (t + 1) * 2 ^ nat (- e)) \<and>
        (e < 0 \<and> m < 0 \<longrightarrow> (t - 1) * 2 ^ nat (- e) < m \<and> m \<le> t * 2 ^ nat (- e))"
    using trunc_float_spec [of e m] by (intro exI [of _ "trunc_float m e"]) simp
  have plain: "int_of_json U (JInt i) = Inr i" "int_of_json U (JBool b) = Inr (if b then 1 else 0)"
    by simp_all
  note str = int_of_json_string [of U s n]
  note fails = int_of_json_fails [of U v]
  from load plain str float fails show ?thesis by (intro conjI)
qed

theorem safe_load_scores_coerces_witness:
  "distinct (map fst
     [(ascii ''a'', JString (ascii ''3'')),
      (ascii ''b'', JFloat (Finite 8331659310635418 (- 51))),
      (ascii ''c'', JFloat (Finite (- 8331659310635418) (- 51))),
      (ascii ''d'', JBool True),
      (ascii ''e'', JString [1635])]) \<and>
   safe_load_scores ''s.json''
     (demo_world [] (Json (JObject
        [(ascii ''a'', JString (ascii ''3'')),
         (ascii ''b'', JFloat (Finite 8331659310635418 (- 51))),
         (ascii ''c'', JFloat (Finite (- 8331659310635418) (- 51))),
         (ascii ''d'', JBool True),
         (ascii ''e'', JString [1635])])))
     = Inr [(ascii ''a'', 3), (ascii ''b'', 3), (ascii ''c'', - 3), (ascii ''d'', 1),
            (ascii ''e'', 3)] \<and>
   safe_load_scores ''s.json'' (demo_world [] (Json (JObject [(ascii ''1'', JString [28, 51])])))
     = Inr []"
proof -
  let ?kvs = "[(ascii ''a'', JString (ascii ''3'')),
      (ascii ''b'', JFloat (Finite 8331659310635418 (- 51))),
      (ascii ''c'', JFloat (Finite (- 8331659310635418) (- 51))),
      (ascii ''d'', JBool True),
      (ascii ''e'', JString [1635])]"
  let ?bad = "[(ascii ''1'', JString [28, 51])]"
  have d1: "distinct (map fst ?kvs)" and d2: "distinct (map fst ?bad)" by (simp_all add: ascii_def)
  have v: "py_int demo_unicode (ascii ''3'') = Some 3" "py_int demo_unicode [1635] = Some 3"
    "py_int demo_unicode [28, 51] = None"
    "trunc_float 8331659310635418 (- 51) = 3" "trunc_float (- 8331659310635418) (- 51) = - 3"
    by (simp_all add: py_int_eval demo_unicode_def py_isspace_def py_decimal_def trunc_float_def)
  have f1: "files (demo_world [] (Json (JObject ?kvs))) ''s.json'' = Json (JObject ?kvs)"
    and f2: "files (demo_world [] (Json (JObject ?bad))) ''s.json'' = Json (JObject ?bad)"
    and u: "unicode_db (demo_world [] f) = demo_unicode" for f
    by (simp_all add: demo_world_def)
  from safe_load_scores_coerces
    [where w = "demo_world [] (Json (JObject ?kvs))" and p = "''s.json''" and kvs = ?kvs,
     THEN conjunct1, rule_format, OF conjI [OF f1 d1]]
  have one: "safe_load_scores ''s.json'' (demo_world [] (Json (JObject ?kvs))) =
    Inr [(ascii ''a'', 3), (ascii ''b'', 3), (ascii ''c'', - 3), (ascii ''d'', 1), (ascii ''e'', 3)]"
    by (simp add: u v)
  from safe_load_scores_coerces
    [where w = "demo_world [] (Json (JObject ?bad))" and p = "''s.json''" and kvs = ?bad,
     THEN conjunct1, rule_format, OF conjI [OF f2 d2]]
  have two: "safe_load_scores ''s.json'' (demo_world [] (Json (JObject ?bad))) = Inr []"
    by (simp add: u v)
  from d1 one two show ?thesis by (intro conjI)
qed

lemma unicode_db_draw_secret:
  "draw_secret lo hi rng w = (x, w') \<Longrightarrow> unicode_db w' = unicode_db w"
  by (auto simp: draw_secret_def new_random_def randint_def split: option.splits if_splits)

section \<open>The game session\<close>

text \<open>
  C1. When the secret drawn is \<open>g\<close> and the first validated guess is \<open>g\<close>, the session
  returns one attempt and a win, whatever the attempt limit; \<open>g\<close> then lies between the
  bounds. When minimum and maximum are equal, the first validated guess always wins.
\<close>

theorem first_guess_wins:
  "(draw_secret lo hi rng w = (Inr g, w1) \<and>
    get_valid_number (AttemptPrompt 1) lo hi (output_fn (GuessBetween lo hi) w1) = (Inr g, w2) \<longrightarrow>
      lo \<le> g \<and> g \<le> hi \<and>
      play_game lo hi m rng w = (Inr (1, True), output_fn (Correct g 1) w2)) \<and>
   (draw_secret lo lo rng w = (r, w1) \<and>
    get_valid_number (AttemptPrompt 1) lo lo (output_fn (GuessBetween lo lo) w1) = (Inr v, w2) \<longrightarrow>
      play_game lo lo m rng w = (Inr (1, True), output_fn (Correct lo 1) w2))"
proof (intro conjI impI)
  assume h: "draw_secret lo hi rng w = (Inr g, w1) \<and>
    get_valid_number (AttemptPrompt 1) lo hi (output_fn (GuessBetween lo hi) w1) = (Inr g, w2)"
  then have g: "get_valid_number (AttemptPrompt (0 + 1)) lo hi (output_fn (GuessBetween lo hi) w1)
                  = (Inr g, w2)" by simp
  from h draw_secret_in_range show "lo \<le> g" "g \<le> hi" by blast+
  from h show "play_game lo hi m rng w = (Inr (1, True), output_fn (Correct g 1) w2)"
    by (simp add: play_game_def play_loop_step [OF g])
next
  assume h: "draw_secret lo lo rng w = (r, w1) \<and>
    get_valid_number (AttemptPrompt 1) lo lo (output_fn (GuessBetween lo lo) w1) = (Inr v, w2)"
  then have r: "r = Inr lo" using draw_secret_single by blast
  from h have g: "get_valid_number (AttemptPrompt (0 + 1)) lo lo (output_fn (GuessBetween lo lo) w1)
                  = (Inr v, w2)" by simp
  from h get_valid_number_returned [of "AttemptPrompt 1" lo lo _ v w2]
  have "v = lo" by force
  with h r show "play_game lo lo m rng w = (Inr (1, True), output_fn (Correct lo 1) w2)"
    by (simp add: play_game_def play_loop_step [OF g])
qed

theorem first_guess_wins_witness:
  "draw_secret 1 9 (Some 0) (demo_world [Line (ascii ''5'')] Missing) =
     (Inr 5, (demo_world [Line (ascii ''5'')] Missing)
        \<lparr>rngs := (rngs (demo_world [Line (ascii ''5'')] Missing))(0 := sconst 4)\<rparr>) \<and>
   fst (play_game 1 9 None (Some 0) (demo_world [Line (ascii ''5'')] Missing)) = Inr (1, True) \<and>
   fst (play_game 3 3 (Some 4) None (demo_world [Line (ascii ''0''), Line (ascii ''3'')] Missing)) = Inr (1, True)"
proof -
  let ?w = "demo_world [Line (ascii ''5'')] Missing"
  let ?w1 = "?w\<lparr>rngs := (rngs ?w)(0 := sconst 4)\<rparr>"
  let ?u = "demo_world [Line (ascii ''0''), Line (ascii ''3'')] Missing"
  note v = py_int_demo
  note d = draw_secret_demo [of "[Line (ascii ''5'')]" Missing]
  have g: "get_valid_number (AttemptPrompt 1) 1 9 (output_fn (GuessBetween 1 9) ?w1) =
    (Inr 5, ?w1\<lparr>pending := [], trace := [Said (GuessBetween 1 9), Asked (AttemptPrompt 1)]\<rparr>)"
    using v by (simp add: get_valid_number_line output_fn_def demo_world_def)
  from first_guess_wins [where lo = 1 and hi = 9 and rng = "Some 0" and w = ?w and g = 5
      and ?w1.0 = ?w1 and m = None] d g
  have one: "fst (play_game 1 9 None (Some 0) ?w) = Inr (1, True)" by simp
  obtain r u1 where du: "draw_secret 3 3 None ?u = (r, u1)" by (cases "draw_secret 3 3 None ?u")
  then have pu: "pending u1 = [Line (ascii ''0''), Line (ascii ''3'')]" and tu: "trace u1 = []"
    and uu: "unicode_db u1 = demo_unicode"
    by (auto simp: draw_secret_def randint_def new_random_def demo_world_def)
  have "get_valid_number (AttemptPrompt 1) 3 3 (output_fn (GuessBetween 3 3) u1) =
    (Inr 3, u1\<lparr>pending := [],
       trace := [Said (GuessBetween 3 3), Asked (AttemptPrompt 1), Said (EnterBetween 3 3),
                 Asked (AttemptPrompt 1)]\<rparr>)"
    using v pu tu uu by (simp add: get_valid_number_line output_fn_def)
  with first_guess_wins [where lo = 3 and rng = None and w = ?u and r = r and ?w1.0 = u1
      and v = 3 and m = "Some 4"] du
  have two: "fst (play_game 3 3 (Some 4) None ?u) = Inr (1, True)" by simp
  from d one two show ?thesis by simp
qed

text \<open>
  C2. With an attempt limit \<open>N > 0\<close> and an input source whose first \<open>N\<close> validated
  guesses all miss the secret, the session returns \<open>N\<close> attempts and no win; its last
  message is the loss message, which carries the secret; it has read exactly \<open>N\<close>
  validated guesses, and every prompt for a guess it issued is numbered from 1 to \<open>N\<close>.
  Without a limit every return of the session is a win, and when no validated guess
  equals the secret the session does not return: it ends by the error of the input
  source.
\<close>

theorem attempt_limit_loss:
  "(draw_secret lo hi rng w = (Inr secret, w1) \<and> 0 < N \<and>
    nat N \<le> length (validated (unicode_db w) lo hi (pending w)) \<and>
    secret \<notin> set (take (nat N) (validated (unicode_db w) lo hi (pending w))) \<longrightarrow>
      (\<exists>w'. play_game lo hi (Some N) rng w = (Inr (N, False), w') \<and>
            last (trace w') = Said (GameOver N secret) \<and>
            validated (unicode_db w) lo hi (pending w') = drop (nat N) (validated (unicode_db w) lo hi (pending w)) \<and>
            (\<forall>k. Asked (AttemptPrompt k) \<in> set (trace w') \<longrightarrow>
                 Asked (AttemptPrompt k) \<in> set (trace w) \<or> (1 \<le> k \<and> k \<le> N)))) \<and>
   (draw_secret lo hi rng w = (Inr secret, w1) \<and>
    play_game lo hi None rng w = (Inr (n, won), w2) \<longrightarrow>
      won \<and> last (trace w2) = Said (Correct secret n)) \<and>
   (draw_secret lo hi rng w = (Inr secret, w1) \<and>
    secret \<notin> set (validated (unicode_db w) lo hi (pending w)) \<longrightarrow>
      (\<exists>e w'. play_game lo hi None rng w = (Inl e, w')))"
proof (intro conjI impI)
  assume h: "draw_secret lo hi rng w = (Inr secret, w1) \<and> 0 < N \<and>
    nat N \<le> length (validated (unicode_db w) lo hi (pending w)) \<and>
    secret \<notin> set (take (nat N) (validated (unicode_db w) lo hi (pending w)))"
  let ?w = "output_fn (GuessBetween lo hi) w1"
  from h have d: "draw_secret lo hi rng w = (Inr secret, w1)" by simp
  have p: "pending ?w = pending w" using pending_draw_secret [OF d] by simp
  have t: "trace ?w = trace w @ [Said (GuessBetween lo hi)]"
    using trace_draw_secret [OF d] by (simp add: output_fn_def)
  have ud: "unicode_db ?w = unicode_db w" using unicode_db_draw_secret [OF d] by simp
  from h p ud have "\<exists>w'. play_loop secret lo hi (Some N) 0 ?w = (Inr (N, False), w') \<and>
              last (trace w') = Said (GameOver N secret) \<and>
              validated (unicode_db w) lo hi (pending w') = drop (nat (N - 0)) (validated (unicode_db w) lo hi (pending ?w)) \<and>
              (\<forall>k. Asked (AttemptPrompt k) \<in> set (trace w') \<longrightarrow>
                   Asked (AttemptPrompt k) \<in> set (trace ?w) \<or> (0 < k \<and> k \<le> N))"
    by (intro play_loop_misses) simp_all
  then obtain w' where w': "play_loop secret lo hi (Some N) 0 ?w = (Inr (N, False), w')"
      "last (trace w') = Said (GameOver N secret)"
      "validated (unicode_db w) lo hi (pending w') = drop (nat N) (validated (unicode_db w) lo hi (pending w))"
      "\<forall>k. Asked (AttemptPrompt k) \<in> set (trace w') \<longrightarrow>
           Asked (AttemptPrompt k) \<in> set (trace ?w) \<or> (0 < k \<and> k \<le> N)"
    using p by auto
  have "Asked (AttemptPrompt k) \<in> set (trace w) \<or> (1 \<le> k \<and> k \<le> N)"
    if "Asked (AttemptPrompt k) \<in> set (trace w')" for k
    using w'(4) that t by auto
  with w'(1-3) d show "\<exists>w'. play_game lo hi (Some N) rng w = (Inr (N, False), w') \<and>
            last (trace w') = Said (GameOver N secret) \<and>
            validated (unicode_db w) lo hi (pending w') = drop (nat N) (validated (unicode_db w) lo hi (pending w)) \<and>
            (\<forall>k. Asked (AttemptPrompt k) \<in> set (trace w') \<longrightarrow>
                 Asked (AttemptPrompt k) \<in> set (trace w) \<or> (1 \<le> k \<and> k \<le> N))"
    by (auto simp: play_game_def)
next
  assume h: "draw_secret lo hi rng w = (Inr secret, w1) \<and>
    play_game lo hi None rng w = (Inr (n, won), w2)"
  then have "play_loop secret lo hi None 0 (output_fn (GuessBetween lo hi) w1) = (Inr (n, won), w2)"
    by (auto simp: play_game_def)
  from play_loop_unlimited_return [OF this]
  show "won" "last (trace w2) = Said (Correct secret n)" by simp_all
next
  assume h: "draw_secret lo hi rng w = (Inr secret, w1) \<and>
    secret \<notin> set (validated (unicode_db w) lo hi (pending w))"
  then have d: "draw_secret lo hi rng w = (Inr secret, w1)" by simp
  have "pending (output_fn (GuessBetween lo hi) w1) = pending w"
    using pending_draw_secret [OF d] by simp
  with h have "secret \<notin> set (validated (unicode_db w) lo hi (pending (output_fn (GuessBetween lo hi) w1)))"
    by simp
  moreover have "unicode_db (output_fn (GuessBetween lo hi) w1) = unicode_db w"
    using unicode_db_draw_secret [OF d] by simp
  ultimately have "\<exists>e w'. play_loop secret lo hi None 0 (output_fn (GuessBetween lo hi) w1)
                     = (Inl e, w')"
    by (intro play_loop_unlimited_no_win)
  with d
  show "\<exists>e w'. play_game lo hi None rng w = (Inl e, w')"
    by (auto simp: play_game_def)
qed

theorem attempt_limit_loss_witness:
  "draw_secret 1 9 (Some 0) (demo_world [Line (ascii ''3''), Line (ascii ''x''), Line (ascii ''7''), Line (ascii ''5'')] Missing) =
     (Inr 5, (demo_world [Line (ascii ''3''), Line (ascii ''x''), Line (ascii ''7''), Line (ascii ''5'')] Missing)
        \<lparr>rngs := (rngs (demo_world [Line (ascii ''3''), Line (ascii ''x''), Line (ascii ''7''), Line (ascii ''5'')] Missing))
           (0 := sconst 4)\<rparr>) \<and>
   validated demo_unicode 1 9 (pending (demo_world [Line (ascii ''3''), Line (ascii ''x''), Line (ascii ''7''), Line (ascii ''5'')] Missing)) =
     [3, 7, 5] \<and>
   (\<exists>w'. play_game 1 9 (Some 2) (Some 0)
            (demo_world [Line (ascii ''3''), Line (ascii ''x''), Line (ascii ''7''), Line (ascii ''5'')] Missing) =
            (Inr (2, False), w') \<and>
         last (trace w') = Said (GameOver 2 5) \<and>
         validated demo_unicode 1 9 (pending w') = [5])"
proof -
  let ?w = "demo_world [Line (ascii ''3''), Line (ascii ''x''), Line (ascii ''7''), Line (ascii ''5'')] Missing"
  have u: "unicode_db ?w = demo_unicode" by (rule unicode_db_demo_world)
  have v: "validated demo_unicode 1 9 (pending ?w) = [3, 7, 5]"
    by (simp only: pending_demo_world validated_demo)
  note d = draw_secret_demo [of "[Line (ascii ''3''), Line (ascii ''x''), Line (ascii ''7''), Line (ascii ''5'')]" Missing]
  have hyp: "draw_secret 1 9 (Some 0) ?w = (Inr 5, ?w\<lparr>rngs := (rngs ?w)(0 := sconst 4)\<rparr>) \<and>
     0 < (2 :: int) \<and> nat 2 \<le> length (validated (unicode_db ?w) 1 9 (pending ?w)) \<and>
     5 \<notin> set (take (nat 2) (validated (unicode_db ?w) 1 9 (pending ?w)))"
    using d by (simp add: u v)
  from attempt_limit_loss [where lo = 1 and hi = 9 and rng = "Some 0" and w = ?w and secret = 5
      and N = 2 and ?w1.0 = "?w\<lparr>rngs := (rngs ?w)(0 := sconst 4)\<rparr>",
      THEN conjunct1, rule_format, OF hyp]
  obtain w' where "play_game 1 9 (Some 2) (Some 0) ?w = (Inr (2, False), w')"
    "last (trace w') = Said (GameOver 2 5)"
    "validated (unicode_db ?w) 1 9 (pending w') =
       drop (nat 2) (validated (unicode_db ?w) 1 9 (pending ?w))"
    by blast
  then have "\<exists>w'. play_game 1 9 (Some 2) (Some 0) ?w = (Inr (2, False), w') \<and>
         last (trace w') = Said (GameOver 2 5) \<and>
         validated demo_unicode 1 9 (pending w') = [5]"
    by (simp add: u v)
  with d v show ?thesis by blast
qed

section \<open>The random source of a session\<close>











end
